theory Spec2Isabelle
  imports Complex_Main "HOL-Library.Multiset"
begin

section \<open>Data model\<close>

text \<open>
  A detection is the dictionary built by every detector of \<^verbatim>\<open>patterns.py\<close> and
  \<^verbatim>\<open>ner_detector.py\<close>: keys \<^verbatim>\<open>type\<close>, \<^verbatim>\<open>value\<close>, \<^verbatim>\<open>start\<close>, \<^verbatim>\<open>end\<close>,
  \<^verbatim>\<open>confidence\<close>, \<^verbatim>\<open>hipaa_identifier\<close>. Offsets are Python integers. The
  confidences are the decimal literals of the source, kept as rationals (they are only
  ever stored and compared, never computed with).
\<close>

record detection =
  d_type :: string
  d_value :: string
  d_start :: int
  d_end :: int
  d_confidence :: rat
  hipaa_identifier :: string

text \<open>The dictionary returned by \<^verbatim>\<open>PHIDetector.analyze\<close>.\<close>

record analysis_result =
  has_phi :: bool
  risk_level :: string
  detections :: "detection list"
  redacted_text :: string

text \<open>The exceptions that the modelled code can raise.\<close>

datatype error = OSError | TypeError | ValueError | KeyError | RuntimeError

section \<open>Text and regular expressions\<close>

text \<open>
  A text is a list of characters, one \<^typ>\<open>char\<close> for each code point; the model covers
  the code points below 256. The classes below are those of Python's \<^verbatim>\<open>re\<close> on
  \<^verbatim>\<open>str\<close> patterns for these code points: \<^verbatim>\<open>\d\<close>, \<^verbatim>\<open>\w\<close> and
  \<^verbatim>\<open>\s\<close>.
\<close>

definition code :: "char \<Rightarrow> nat" where
  "code c = of_char c"

definition is_digit :: "char \<Rightarrow> bool" where
  "is_digit c = (48 \<le> code c \<and> code c \<le> 57)"

definition is_word :: "char \<Rightarrow> bool" where
  "is_word c = (let n = code c in
     (48 \<le> n \<and> n \<le> 57) \<or> (65 \<le> n \<and> n \<le> 90) \<or> n = 95 \<or> (97 \<le> n \<and> n \<le> 122) \<or>
     n = 170 \<or> n = 178 \<or> n = 179 \<or> n = 181 \<or> n = 185 \<or> n = 186 \<or>
     (188 \<le> n \<and> n \<le> 190) \<or> (192 \<le> n \<and> n \<le> 214) \<or> (216 \<le> n \<and> n \<le> 246) \<or> 248 \<le> n)"

definition is_space :: "char \<Rightarrow> bool" where
  "is_space c = (let n = code c in
     (9 \<le> n \<and> n \<le> 13) \<or> (28 \<le> n \<and> n \<le> 32) \<or> n = 133 \<or> n = 160)"

definition ascii_upper :: "char \<Rightarrow> bool" where
  "ascii_upper c = (65 \<le> code c \<and> code c \<le> 90)"

definition ascii_lower :: "char \<Rightarrow> bool" where
  "ascii_lower c = (97 \<le> code c \<and> code c \<le> 122)"

datatype rx = Eps | Rep "char \<Rightarrow> bool" nat "nat option" | WordB | Seq rx rx | Alt rx rx

definition word_boundary :: "string \<Rightarrow> nat \<Rightarrow> bool" where
  "word_boundary s i =
     ((0 < i \<and> i \<le> length s \<and> is_word (s ! (i - 1))) \<noteq> (i < length s \<and> is_word (s ! i)))"

text \<open>
  \<open>ends r s i\<close> lists the positions where a match of \<open>r\<close> that starts at \<open>i\<close> can
  end, in the order in which the backtracking matcher of \<^verbatim>\<open>re\<close> tries them: a greedy
  repetition of a character class tries the longest run first, a sequence tries the ends
  of its first part in order, an alternation its left branch before its right one.
\<close>

fun ends :: "rx \<Rightarrow> string \<Rightarrow> nat \<Rightarrow> nat list" where
  "ends Eps s i = [i]"
| "ends (Rep P lo hi) s i =
     (let n = length (takeWhile P (drop i s));
          m = (case hi of None \<Rightarrow> n | Some h \<Rightarrow> min h n)
      in if m < lo then [] else map (\<lambda>k. i + k) (rev [lo..<Suc m]))"
| "ends WordB s i = (if word_boundary s i then [i] else [])"
| "ends (Seq a b) s i = concat (map (ends b s) (ends a s i))"
| "ends (Alt a b) s i = ends a s i @ ends b s i"

text \<open>
  \<^verbatim>\<open>pattern.finditer(text)\<close>: the leftmost match from the current position, by its
  first end in the order of priority, then on from the end of that match. No pattern of
  this program matches the empty string (\<open>patterns_consume\<close>), so the rule of
  \<^verbatim>\<open>re\<close> for empty matches is never used; the model steps one character on there.
\<close>

function finditer_from :: "rx \<Rightarrow> string \<Rightarrow> nat \<Rightarrow> (nat \<times> nat) list" where
  "finditer_from r s pos =
     (if length s < pos then []
      else (case ends r s pos of
              [] \<Rightarrow> finditer_from r s (Suc pos)
            | e # _ \<Rightarrow> (pos, e) # finditer_from r s (if pos < e then e else Suc pos)))"
  by pat_completeness auto
termination
  by (relation "measure (\<lambda>(r, s, pos). Suc (length s) - pos)") auto

definition finditer :: "rx \<Rightarrow> string \<Rightarrow> (nat \<times> nat) list" where
  "finditer r s = finditer_from r s 0"

definition seqs :: "rx list \<Rightarrow> rx" where
  "seqs rs = foldr Seq rs Eps"

definition lit :: "char \<Rightarrow> rx" where
  "lit c = Rep (\<lambda>x. x = c) 1 (Some 1)"

definition digits :: "nat \<Rightarrow> nat \<Rightarrow> rx" where
  "digits lo hi = Rep is_digit lo (Some hi)"

definition opt_sep :: rx where
  "opt_sep = Rep (\<lambda>c. c = CHR ''-'' \<or> is_space c) 0 (Some 1)"

definition sin_pattern :: rx where
  "sin_pattern = seqs [WordB, digits 3 3, opt_sep, digits 3 3, opt_sep, digits 3 3, WordB]"

definition phn_pattern :: rx where
  "phn_pattern = seqs [WordB, digits 10 10, WordB]"

definition phone_pattern :: rx where
  "phone_pattern =
     Seq (Alt (seqs [lit CHR ''('', digits 3 3, lit CHR '')'', Rep is_space 1 None,
                     digits 3 3, lit CHR ''-'', digits 4 4])
         (Alt (seqs [WordB, digits 3 3, lit CHR ''-'', digits 3 3, lit CHR ''-'', digits 4 4])
              (seqs [WordB, digits 3 3, lit CHR ''.'', digits 3 3, lit CHR ''.'', digits 4 4])))
       WordB"

definition email_local :: "char \<Rightarrow> bool" where
  "email_local c = (ascii_upper c \<or> ascii_lower c \<or> is_digit c \<or>
     c = CHR ''.'' \<or> c = CHR ''_'' \<or> c = CHR ''%'' \<or> c = CHR ''+'' \<or> c = CHR ''-'')"

definition email_domain :: "char \<Rightarrow> bool" where
  "email_domain c = (ascii_upper c \<or> ascii_lower c \<or> is_digit c \<or> c = CHR ''.'' \<or> c = CHR ''-'')"

definition email_tld :: "char \<Rightarrow> bool" where
  "email_tld c = (ascii_upper c \<or> c = CHR ''|'' \<or> ascii_lower c)"

definition email_pattern :: rx where
  "email_pattern =
     seqs [WordB, Rep email_local 1 None, lit CHR ''@'', Rep email_domain 1 None,
           lit CHR ''.'', Rep email_tld 2 None, WordB]"

definition credit_card_pattern :: rx where
  "credit_card_pattern =
     seqs [WordB, digits 4 4, opt_sep, digits 4 4, opt_sep, digits 4 4, opt_sep, digits 4 4, WordB]"

definition letter_ic :: rx where
  "letter_ic = Rep (\<lambda>c. ascii_upper c \<or> ascii_lower c) 1 (Some 1)"

definition postal_code_pattern :: rx where
  "postal_code_pattern =
     seqs [WordB, letter_ic, digits 1 1, letter_ic, Rep is_space 0 (Some 1),
           digits 1 1, letter_ic, digits 1 1, WordB]"

definition ip_pattern :: rx where
  "ip_pattern =
     seqs [WordB, digits 1 3, lit CHR ''.'', digits 1 3, lit CHR ''.'', digits 1 3, lit CHR ''.'',
           digits 1 3, WordB]"

definition dash_or_slash :: rx where
  "dash_or_slash = Rep (\<lambda>c. c = CHR ''-'' \<or> c = CHR ''/'') 1 (Some 1)"

definition date_pattern :: rx where
  "date_pattern =
     seqs [WordB,
           Alt (seqs [digits 1 2, dash_or_slash, digits 1 2, dash_or_slash, digits 4 4])
               (seqs [digits 4 4, dash_or_slash, digits 1 2, dash_or_slash, digits 1 2]),
           WordB]"

text \<open>
  The least number of characters a match consumes, and the characters a match can
  contain; both are used to relate the model to \<^verbatim>\<open>re\<close> below.
\<close>

fun min_len :: "rx \<Rightarrow> nat" where
  "min_len Eps = 0"
| "min_len (Rep P lo hi) = lo"
| "min_len WordB = 0"
| "min_len (Seq a b) = min_len a + min_len b"
| "min_len (Alt a b) = min (min_len a) (min_len b)"

fun accepts :: "rx \<Rightarrow> char \<Rightarrow> bool" where
  "accepts Eps c = False"
| "accepts (Rep P lo hi) c = P c"
| "accepts WordB c = False"
| "accepts (Seq a b) c = (accepts a c \<or> accepts b c)"
| "accepts (Alt a b) c = (accepts a c \<or> accepts b c)"

section \<open>Strings and slices\<close>

text \<open>
  Python's slice \<^verbatim>\<open>s[a:b]\<close> on integers of either sign: a negative index counts from
  the end, and every index is clamped into the string.
\<close>

definition py_index :: "string \<Rightarrow> int \<Rightarrow> nat" where
  "py_index s i =
     (let n = int (length s) in nat (if i < 0 then max 0 (n + i) else min n i))"

definition slice_to :: "string \<Rightarrow> int \<Rightarrow> string" where
  "slice_to s b = take (py_index s b) s"

definition slice_from :: "string \<Rightarrow> int \<Rightarrow> string" where
  "slice_from s a = drop (py_index s a) s"

definition py_slice :: "string \<Rightarrow> int \<Rightarrow> int \<Rightarrow> string" where
  "py_slice s a b = take (py_index s b - py_index s a) (drop (py_index s a) s)"

text \<open>\<^verbatim>\<open>match.group()\<close>: the matched substring.\<close>

definition group :: "string \<Rightarrow> nat \<times> nat \<Rightarrow> string" where
  "group s m = take (snd m - fst m) (drop (fst m) s)"

text \<open>\<^verbatim>\<open>s.replace(c, '')\<close> and \<^verbatim>\<open>s.replace(' ', '_')\<close> for single characters.\<close>

definition remove_char :: "char \<Rightarrow> string \<Rightarrow> string" where
  "remove_char c s = filter (\<lambda>x. x \<noteq> c) s"

definition replace_char :: "char \<Rightarrow> char \<Rightarrow> string \<Rightarrow> string" where
  "replace_char old new s = map (\<lambda>x. if x = old then new else x) s"

text \<open>
  \<^verbatim>\<open>str.lower\<close> on code points below 256: the ASCII capitals and the capitals 192 to 222
  (without the multiplication sign 215) move up by 32.
\<close>

definition lower_char :: "char \<Rightarrow> char" where
  "lower_char c = (let n = code c in
     if (65 \<le> n \<and> n \<le> 90) \<or> (192 \<le> n \<and> n \<le> 222 \<and> n \<noteq> 215) then char_of (n + 32) else c)"

definition lower :: "string \<Rightarrow> string" where
  "lower s = map lower_char s"

text \<open>
  \<^verbatim>\<open>str.upper\<close>: the small letters move down by 32 and the sharp s (223) becomes
  \<^verbatim>\<open>SS\<close>. The code points 181 and 255 have their capitals above 255 and are left as they
  are here; no type name of this program contains them.
\<close>

definition upper_char :: "char \<Rightarrow> string" where
  "upper_char c = (let n = code c in
     if (97 \<le> n \<and> n \<le> 122) \<or> (224 \<le> n \<and> n \<le> 254 \<and> n \<noteq> 247) then [char_of (n - 32)]
     else if n = 223 then ''SS''
     else [c])"

definition upper :: "string \<Rightarrow> string" where
  "upper s = concat (map upper_char s)"

text \<open>\<^verbatim>\<open>keyword in context\<close>: the substring test.\<close>

fun starts_with :: "string \<Rightarrow> string \<Rightarrow> bool" where
  "starts_with [] s = True"
| "starts_with (k # ks) [] = False"
| "starts_with (k # ks) (c # cs) = (k = c \<and> starts_with ks cs)"

fun py_in :: "string \<Rightarrow> string \<Rightarrow> bool" where
  "py_in kw [] = (kw = [])"
| "py_in kw (c # cs) = (starts_with kw (c # cs) \<or> py_in kw cs)"

text \<open>\<^verbatim>\<open>s.split('.')\<close>.\<close>

fun split_on :: "char \<Rightarrow> string \<Rightarrow> string list" where
  "split_on sep [] = [[]]"
| "split_on sep (c # cs) =
     (if c = sep then [] # split_on sep cs
      else (case split_on sep cs of
              [] \<Rightarrow> [[c]]
            | w # ws \<Rightarrow> (c # w) # ws))"

text \<open>
  \<^verbatim>\<open>int(d)\<close> on one character, and \<^verbatim>\<open>int(octet)\<close> on a string: a decimal digit string
  gives its value, the empty string and a character that is no digit raise
  \<^verbatim>\<open>ValueError\<close>. (Python's \<^verbatim>\<open>int\<close> also accepts signs, blanks and underscores around
  digits. The octets that reach it here are the pieces between the dots of a match of the
  IP pattern, four runs of one to three digits, see \<open>ip_match_octets\<close>; on such pieces
  the model is exact.)
\<close>

definition int_of_char :: "char \<Rightarrow> error + nat" where
  "int_of_char c = (if is_digit c then Inr (code c - 48) else Inl ValueError)"

fun digits_of_str :: "string \<Rightarrow> error + nat list" where
  "digits_of_str [] = Inr []"
| "digits_of_str (c # cs) =
     (case int_of_char c of
        Inl e \<Rightarrow> Inl e
      | Inr d \<Rightarrow> (case digits_of_str cs of Inl e \<Rightarrow> Inl e | Inr ds \<Rightarrow> Inr (d # ds)))"

definition py_int :: "string \<Rightarrow> error + nat" where
  "py_int s =
     (if s = [] then Inl ValueError
      else (case digits_of_str s of
              Inl e \<Rightarrow> Inl e
            | Inr ds \<Rightarrow> Inr (foldl (\<lambda>acc d. 10 * acc + d) 0 ds)))"

section \<open>\<^verbatim>\<open>Patterns._luhn_check\<close>\<close>

text \<open>\<^verbatim>\<open>digits_of(n)\<close> on an integer: the decimal digits of \<^verbatim>\<open>str(n)\<close>.\<close>

fun digits_of_nat :: "nat \<Rightarrow> nat list" where
  "digits_of_nat n = (if n < 10 then [n] else digits_of_nat (n div 10) @ [n mod 10])"

text \<open>The slices \<^verbatim>\<open>xs[-1::-2]\<close> and \<^verbatim>\<open>xs[-2::-2]\<close> take every second element from
  the right, starting at the last and at the last but one.\<close>

fun every_second :: "'a list \<Rightarrow> 'a list" where
  "every_second [] = []"
| "every_second [x] = [x]"
| "every_second (x # y # zs) = x # every_second zs"

definition luhn_check :: "string \<Rightarrow> error + bool" where
  "luhn_check card_number =
     (case digits_of_str card_number of
        Inl e \<Rightarrow> Inl e
      | Inr ds \<Rightarrow>
          (let odd_digits = every_second (rev ds);
               even_digits = every_second (tl (rev ds));
               checksum = fold (\<lambda>d c. c + sum_list (digits_of_nat (d * 2))) even_digits
                            (sum_list odd_digits)
           in Inr (checksum mod 10 = 0)))"

text \<open>
  The Luhn validation as the specification words it: from the rightmost digit, every
  second digit (counting from the right) is doubled, a doubled value above 9 is replaced by
  the sum of its digits, everything is summed, and the total must be 0 modulo 10.
\<close>

fun luhn_terms :: "bool \<Rightarrow> nat list \<Rightarrow> nat list" where
  "luhn_terms dbl [] = []"
| "luhn_terms dbl (d # ds) =
     (if dbl then (if 2 * d > 9 then (2 * d) div 10 + (2 * d) mod 10 else 2 * d) else d)
       # luhn_terms (\<not> dbl) ds"

definition luhn_spec :: "nat list \<Rightarrow> bool" where
  "luhn_spec ds = (sum_list (luhn_terms False (rev ds)) mod 10 = 0)"

section \<open>The detectors of \<^verbatim>\<open>patterns.py\<close>\<close>

definition mk_detection :: "string \<Rightarrow> rat \<Rightarrow> string \<Rightarrow> string \<Rightarrow> nat \<times> nat \<Rightarrow> detection" where
  "mk_detection ty conf hipaa text m =
     \<lparr>d_type = ty, d_value = group text m, d_start = int (fst m), d_end = int (snd m),
      d_confidence = conf, hipaa_identifier = hipaa\<rparr>"

fun sin_loop :: "string \<Rightarrow> (nat \<times> nat) list \<Rightarrow> detection list" where
  "sin_loop text [] = []"
| "sin_loop text (m # ms) =
     (let clean_sin = remove_char CHR '' '' (remove_char CHR ''-'' (group text m)) in
      if length (remdups clean_sin) > 1
      then mk_detection ''Social Insurance Number (SIN)'' (85 / 100)
             ''National identification number'' text m # sin_loop text ms
      else sin_loop text ms)"

definition detect_sin :: "string \<Rightarrow> detection list" where
  "detect_sin text = sin_loop text (finditer sin_pattern text)"

definition phn_keywords :: "string list" where
  "phn_keywords = [''phn'', ''health number'', ''care card'', ''bc health'']"

definition phn_context :: "string \<Rightarrow> nat \<times> nat \<Rightarrow> string" where
  "phn_context text m =
     (let start = max 0 (int (fst m) - 20);
          stop = min (int (length text)) (int (snd m) + 20)
      in lower (py_slice text start stop))"

definition phn_confidence :: "string \<Rightarrow> nat \<times> nat \<Rightarrow> rat" where
  "phn_confidence text m =
     (if list_ex (\<lambda>keyword. py_in keyword (phn_context text m)) phn_keywords
      then 9 / 10 else 5 / 10)"

fun phn_loop :: "string \<Rightarrow> (nat \<times> nat) list \<Rightarrow> detection list" where
  "phn_loop text [] = []"
| "phn_loop text (m # ms) =
     mk_detection ''Personal Health Number (PHN)'' (phn_confidence text m)
       ''Health plan beneficiary number'' text m # phn_loop text ms"

definition detect_phn :: "string \<Rightarrow> detection list" where
  "detect_phn text = phn_loop text (finditer phn_pattern text)"

text \<open>
  A word-bounded run of exactly ten digits at position \<open>p\<close>, as the specification
  describes the candidates of the health plan number: ten digits, with no word character
  directly before or after them.
\<close>

definition digit_run10 :: "string \<Rightarrow> nat \<Rightarrow> bool" where
  "digit_run10 text p =
     (p + 10 \<le> length text \<and> list_all is_digit (take 10 (drop p text))
      \<and> (p = 0 \<or> \<not> is_word (text ! (p - 1)))
      \<and> (p + 10 = length text \<or> \<not> is_word (text ! (p + 10))))"

definition detect_phone :: "string \<Rightarrow> detection list" where
  "detect_phone text =
     map (mk_detection ''Phone Number'' (8 / 10) ''Telephone number'' text)
       (finditer phone_pattern text)"

definition detect_email :: "string \<Rightarrow> detection list" where
  "detect_email text =
     map (mk_detection ''Email Address'' (95 / 100) ''Email address'' text)
       (finditer email_pattern text)"

fun credit_card_loop :: "string \<Rightarrow> (nat \<times> nat) list \<Rightarrow> error + detection list" where
  "credit_card_loop text [] = Inr []"
| "credit_card_loop text (m # ms) =
     (let clean_number = remove_char CHR '' '' (remove_char CHR ''-'' (group text m)) in
      case luhn_check clean_number of
        Inl e \<Rightarrow> Inl e
      | Inr valid \<Rightarrow>
          (case credit_card_loop text ms of
             Inl e \<Rightarrow> Inl e
           | Inr rest \<Rightarrow>
               Inr (if valid
                    then mk_detection ''Credit Card Number'' (9 / 10) ''Account number'' text m # rest
                    else rest)))"

definition detect_credit_card :: "string \<Rightarrow> error + detection list" where
  "detect_credit_card text = credit_card_loop text (finditer credit_card_pattern text)"

definition detect_postal_code :: "string \<Rightarrow> detection list" where
  "detect_postal_code text =
     map (mk_detection ''Postal Code'' (85 / 100) ''Geographic subdivision (postal code)'' text)
       (finditer postal_code_pattern text)"

text \<open>\<^verbatim>\<open>all(0 <= int(octet) <= 255 for octet in octets)\<close>, stopping at the first failure.\<close>

fun octets_ok :: "string list \<Rightarrow> error + bool" where
  "octets_ok [] = Inr True"
| "octets_ok (octet # rest) =
     (case py_int octet of
        Inl e \<Rightarrow> Inl e
      | Inr v \<Rightarrow> (if 0 \<le> v \<and> v \<le> 255 then octets_ok rest else Inr False))"

fun ip_loop :: "string \<Rightarrow> (nat \<times> nat) list \<Rightarrow> error + detection list" where
  "ip_loop text [] = Inr []"
| "ip_loop text (m # ms) =
     (case octets_ok (split_on CHR ''.'' (group text m)) of
        Inl e \<Rightarrow> Inl e
      | Inr valid \<Rightarrow>
          (case ip_loop text ms of
             Inl e \<Rightarrow> Inl e
           | Inr rest \<Rightarrow>
               Inr (if valid
                    then mk_detection ''IP Address'' (9 / 10) ''IP address'' text m # rest
                    else rest)))"

definition detect_ip :: "string \<Rightarrow> error + detection list" where
  "detect_ip text = ip_loop text (finditer ip_pattern text)"

definition detect_date :: "string \<Rightarrow> detection list" where
  "detect_date text =
     map (mk_detection ''Date'' (7 / 10) ''Date element'' text) (finditer date_pattern text)"

text \<open>The duplicate filter of \<^verbatim>\<open>detect_all\<close>, with its set \<^verbatim>\<open>seen\<close> of keys.\<close>

fun unique_loop :: "(int \<times> int \<times> string) list \<Rightarrow> detection list \<Rightarrow> detection list" where
  "unique_loop seen [] = []"
| "unique_loop seen (result # rest) =
     (let key = (d_start result, d_end result, d_type result) in
      if key \<in> set seen then unique_loop seen rest
      else result # unique_loop (key # seen) rest)"

definition detect_all :: "string \<Rightarrow> error + detection list" where
  "detect_all text =
     (let sin = detect_sin text; phn = detect_phn text; phone = detect_phone text;
          email = detect_email text
      in case detect_credit_card text of
           Inl e \<Rightarrow> Inl e
         | Inr credit_card \<Rightarrow>
             (let postal_code = detect_postal_code text in
              case detect_ip text of
                Inl e \<Rightarrow> Inl e
              | Inr ip \<Rightarrow>
                  (let all_results = sin @ phn @ phone @ email @ credit_card @ postal_code @ ip
                                       @ detect_date text
                   in Inr (sort_key d_start (unique_loop [] all_results)))))"

section \<open>\<^verbatim>\<open>NERDetector\<close>\<close>

text \<open>
  The statistical model is outside the program: \<^verbatim>\<open>self.nlp\<close> is a parameter here, a
  function from the text to the entities \<^verbatim>\<open>doc.ents\<close> it finds, or to the exception
  it raises. An entity carries \<^verbatim>\<open>label_\<close>, \<^verbatim>\<open>text\<close>, \<^verbatim>\<open>start_char\<close> and
  \<^verbatim>\<open>end_char\<close>.
\<close>

record entity =
  label :: string
  ent_text :: string
  start_char :: int
  end_char :: int

type_synonym nlp = "string \<Rightarrow> error + entity list"

text \<open>
  \<^verbatim>\<open>NERDetector.__init__\<close>: \<^verbatim>\<open>spacy.load\<close> gives the model or raises; an
  \<^verbatim>\<open>OSError\<close> is raised again as an \<^verbatim>\<open>OSError\<close> with another message, any other
  exception passes through.
\<close>

definition ner_detector_init :: "error + nlp \<Rightarrow> error + nlp" where
  "ner_detector_init loaded =
     (case loaded of
        Inl e \<Rightarrow> (if e = OSError then Inl OSError else Inl e)
      | Inr model \<Rightarrow> Inr model)"

definition entity_type_map :: "(string \<times> string) list" where
  "entity_type_map =
     [(''PERSON'', ''NAME''), (''GPE'', ''LOCATION''), (''LOC'', ''LOCATION''),
      (''ORG'', ''ORGANIZATION''), (''DATE'', ''DATE'')]"

definition hipaa_identifiers :: "(string \<times> string) list" where
  "hipaa_identifiers =
     [(''PERSON'', ''#1 - Names''), (''DATE'', ''#7 - Dates''),
      (''GPE'', ''#4 - Geographic subdivisions''), (''LOC'', ''#4 - Geographic subdivisions''),
      (''ORG'', ''Organization name (potential identifier)'')]"

fun entity_loop :: "entity list \<Rightarrow> error + detection list" where
  "entity_loop [] = Inr []"
| "entity_loop (ent # ents) =
     (case map_of entity_type_map (label ent) of
        None \<Rightarrow> entity_loop ents
      | Some ty \<Rightarrow>
          (case map_of hipaa_identifiers (label ent) of
             None \<Rightarrow> Inl KeyError
           | Some hipaa \<Rightarrow>
               (case entity_loop ents of
                  Inl e \<Rightarrow> Inl e
                | Inr rest \<Rightarrow>
                    Inr (\<lparr>d_type = ty, d_value = ent_text ent, d_start = start_char ent,
                          d_end = end_char ent, d_confidence = 85 / 100,
                          hipaa_identifier = hipaa\<rparr> # rest))))"

definition detect_entities :: "nlp \<Rightarrow> string \<Rightarrow> error + detection list" where
  "detect_entities model text =
     (case model text of
        Inl e \<Rightarrow> Inl e
      | Inr ents \<Rightarrow>
          (case entity_loop ents of
             Inl e \<Rightarrow> Inl e
           | Inr results \<Rightarrow> Inr (sort_key d_start results)))"

section \<open>\<^verbatim>\<open>PHIDetector._merge_detections\<close>\<close>

text \<open>The test of line 100: \<^verbatim>\<open>not (ner_end <= pattern_start or ner_start >= pattern_end)\<close>.\<close>

definition span_overlap :: "detection \<Rightarrow> detection \<Rightarrow> bool" where
  "span_overlap ner_item pattern_item =
     (\<not> (d_end ner_item \<le> d_start pattern_item \<or> d_start ner_item \<ge> d_end pattern_item))"

text \<open>The inner loop over \<^verbatim>\<open>pattern_results\<close>, leaving at the first overlap.\<close>

fun overlaps_any :: "detection \<Rightarrow> detection list \<Rightarrow> bool" where
  "overlaps_any ner_item [] = False"
| "overlaps_any ner_item (pattern_item # rest) =
     (if span_overlap ner_item pattern_item then True else overlaps_any ner_item rest)"

text \<open>The outer loop over \<^verbatim>\<open>ner_results\<close>, appending to \<^verbatim>\<open>merged\<close>.\<close>

fun merge_loop :: "detection list \<Rightarrow> detection list \<Rightarrow> detection list \<Rightarrow> detection list" where
  "merge_loop pattern_results merged [] = merged"
| "merge_loop pattern_results merged (ner_item # rest) =
     merge_loop pattern_results
       (if overlaps_any ner_item pattern_results then merged else merged @ [ner_item]) rest"

text \<open>\<^verbatim>\<open>list.sort(key=...)\<close> is a stable sort, as \<^const>\<open>sort_key\<close> is.\<close>

definition merge_detections :: "detection list \<Rightarrow> detection list \<Rightarrow> detection list" where
  "merge_detections pattern_results ner_results =
     sort_key d_start (merge_loop pattern_results pattern_results ner_results)"

section \<open>\<^verbatim>\<open>PHIDetector._calculate_risk\<close>\<close>

definition high_risk_types :: "string list" where
  "high_risk_types =
     [''Social Insurance Number (SIN)'', ''Credit Card Number'', ''SSN'', ''CreditCard'',
      ''Personal Health Number (PHN)'']"

fun has_high_risk :: "detection list \<Rightarrow> bool" where
  "has_high_risk [] = False"
| "has_high_risk (d # ds) = (if d_type d \<in> set high_risk_types then True else has_high_risk ds)"

definition calculate_risk :: "detection list \<Rightarrow> string" where
  "calculate_risk ds =
     (if ds = [] then ''LOW''
      else if has_high_risk ds then ''HIGH''
      else if length ds \<ge> 3 then ''MEDIUM''
      else ''LOW'')"

text \<open>
  \<^verbatim>\<open>ChatBot._assess_risk_level\<close> of \<^verbatim>\<open>chatbot.py\<close>, called with
  \<^verbatim>\<open>return_reasoning=False\<close>: the downstream four-tier classifier. The reasoning chain it
  also builds does not enter the returned level.
\<close>

definition critical_types :: "string list" where
  "critical_types =
     [''SSN'', ''Social Insurance Number (SIN)'', ''MEDICAL_RECORD_NUMBER'',
      ''HEALTH_PLAN_NUMBER'', ''Personal Health Number (PHN)'',
      ''DIAGNOSIS_CODE'', ''PRESCRIPTION'', ''Credit Card Number'']"

definition chat_high_risk_types :: "string list" where
  "chat_high_risk_types =
     [''CREDIT_CARD'', ''BANK_ACCOUNT'', ''DATE_OF_BIRTH'', ''BIOMETRIC'', ''FULL_FACE_PHOTO'']"

definition medium_risk_types :: "string list" where
  "medium_risk_types =
     [''PERSON_NAME'', ''NAME'', ''Phone Number'', ''PHONE_NUMBER'', ''Email Address'', ''EMAIL'',
      ''IP Address'', ''IP_ADDRESS'', ''VEHICLE_ID'', ''Postal Code'']"

definition assess_risk_level :: "detection list \<Rightarrow> string" where
  "assess_risk_level ds =
     (if ds = [] then ''LOW''
      else (let detected_types = map d_type ds in
        if list_ex (\<lambda>t. t \<in> set critical_types) detected_types then ''CRITICAL''
        else if list_ex (\<lambda>t. t \<in> set chat_high_risk_types) detected_types then ''HIGH''
        else if list_ex (\<lambda>t. t \<in> set medium_risk_types) detected_types then
          (if length ds > 5 then ''HIGH'' else ''MEDIUM'')
        else ''LOW''))"

text \<open>The type vocabulary of the specification's section 6.\<close>

definition canonical_types :: "string list" where
  "canonical_types =
     [''Social Insurance Number (SIN)'', ''Personal Health Number (PHN)'', ''Phone Number'',
      ''Email Address'', ''Credit Card Number'', ''Postal Code'', ''IP Address'', ''Date'',
      ''NAME'', ''LOCATION'', ''ORGANIZATION'', ''DATE'']"

section \<open>\<^verbatim>\<open>PHIDetector._redact_text\<close>\<close>

definition placeholder :: "string \<Rightarrow> string" where
  "placeholder ty = ''['' @ replace_char CHR '' '' CHR ''_'' (upper ty) @ '']''"

definition splice :: "string \<Rightarrow> detection \<Rightarrow> string" where
  "splice redacted detection =
     slice_to redacted (d_start detection) @ placeholder (d_type detection)
       @ slice_from redacted (d_end detection)"

fun redact_loop :: "string \<Rightarrow> detection list \<Rightarrow> string" where
  "redact_loop redacted [] = redacted"
| "redact_loop redacted (detection # rest) = redact_loop (splice redacted detection) rest"

text \<open>
  \<^verbatim>\<open>sorted(detections, key=..., reverse=True)\<close>: descending and stable, that is,
  elements with equal keys keep their order (Python reverses, sorts stably, reverses).
\<close>

definition sorted_reverse :: "detection list \<Rightarrow> detection list" where
  "sorted_reverse ds = rev (sort_key d_start (rev ds))"

definition redact_text :: "string \<Rightarrow> detection list \<Rightarrow> string" where
  "redact_text text ds = (if ds = [] then text else redact_loop text (sorted_reverse ds))"

text \<open>
  The reading of the redacted text from left to right: the text between the spans is
  copied, each span gives its placeholder.
\<close>

fun scan :: "string \<Rightarrow> nat \<Rightarrow> detection list \<Rightarrow> string" where
  "scan text cursor [] = drop cursor text"
| "scan text cursor (d # ds) =
     take (nat (d_start d) - cursor) (drop cursor text) @ placeholder (d_type d)
       @ scan text (nat (d_end d)) ds"

text \<open>Detections whose spans lie in the text, and lists without two overlapping spans.\<close>

definition valid_span :: "string \<Rightarrow> detection \<Rightarrow> bool" where
  "valid_span text d = (0 \<le> d_start d \<and> d_start d < d_end d \<and> d_end d \<le> int (length text))"

definition disjoint_spans :: "detection \<Rightarrow> detection \<Rightarrow> bool" where
  "disjoint_spans a b = (d_end a \<le> d_start b \<or> d_end b \<le> d_start a)"

fun non_overlapping :: "detection list \<Rightarrow> bool" where
  "non_overlapping [] = True"
| "non_overlapping (d # ds) = (list_all (disjoint_spans d) ds \<and> non_overlapping ds)"

text \<open>
  A list of detections read from left to right from a cursor: each span starts at or after
  the cursor, is not empty, ends inside the text, and the next one starts at or after its
  end.
\<close>

fun chain :: "string \<Rightarrow> nat \<Rightarrow> detection list \<Rightarrow> bool" where
  "chain text cursor [] = True"
| "chain text cursor (d # ds) =
     (int cursor \<le> d_start d \<and> d_start d < d_end d \<and> d_end d \<le> int (length text)
      \<and> chain text (nat (d_end d)) ds)"

section \<open>\<^verbatim>\<open>PHIDetector\<close>\<close>

text \<open>
  \<^verbatim>\<open>PHIDetector.__init__\<close>: compiling the patterns cannot fail; building the
  \<^verbatim>\<open>NERDetector\<close> is not guarded, so its exception leaves the constructor.
\<close>

definition phi_detector_init :: "error + nlp \<Rightarrow> error + nlp" where
  "phi_detector_init loaded = ner_detector_init loaded"

text \<open>
  The argument of \<^verbatim>\<open>analyze\<close> is a string or \<^verbatim>\<open>None\<close>. On \<^verbatim>\<open>None\<close> the first
  \<^verbatim>\<open>finditer\<close> of \<^verbatim>\<open>detect_all\<close> raises \<^verbatim>\<open>TypeError\<close>.
\<close>

datatype arg = PyNone | PyStr string

definition analyze :: "nlp \<Rightarrow> arg \<Rightarrow> error + analysis_result" where
  "analyze model a =
     (case a of
        PyNone \<Rightarrow> Inl TypeError
      | PyStr text \<Rightarrow>
          (case detect_all text of
             Inl e \<Rightarrow> Inl e
           | Inr pattern_results \<Rightarrow>
               (case detect_entities model text of
                  Inl e \<Rightarrow> Inl e
                | Inr ner_results \<Rightarrow>
                    (let merged_detections = merge_detections pattern_results ner_results;
                         risk = calculate_risk merged_detections;
                         redacted = redact_text text merged_detections
                     in Inr \<lparr>has_phi = length merged_detections > 0, risk_level = risk,
                             detections = merged_detections, redacted_text = redacted\<rparr>))))"

section \<open>Example detections\<close>

text \<open>Two recognizers for the examples: one that finds nothing, one that finds a number
  (whose label is not mapped) and a person.\<close>

definition no_entities :: nlp where
  "no_entities text = Inr []"

text \<open>A recognizer that raises on every text.\<close>

definition failing_model :: nlp where
  "failing_model text = Inl RuntimeError"

definition person_model :: nlp where
  "person_model text =
     Inr [\<lparr>label = ''CARDINAL'', ent_text = ''123'', start_char = 5, end_char = 8\<rparr>,
          \<lparr>label = ''PERSON'', ent_text = ''Alice'', start_char = 20, end_char = 25\<rparr>]"

text \<open>A recognizer whose two entities overlap.\<close>

definition overlapping_model :: nlp where
  "overlapping_model text =
     Inr [\<lparr>label = ''PERSON'', ent_text = ''John Smith'', start_char = 0, end_char = 10\<rparr>,
          \<lparr>label = ''PERSON'', ent_text = ''Smith'', start_char = 5, end_char = 10\<rparr>]"

definition ex_full_name :: detection where
  "ex_full_name = \<lparr>d_type = ''NAME'', d_value = ''John Smith'', d_start = 0, d_end = 10,
      d_confidence = 85 / 100, hipaa_identifier = ''#1 - Names''\<rparr>"

definition ex_last_name :: detection where
  "ex_last_name = \<lparr>d_type = ''NAME'', d_value = ''Smith'', d_start = 5, d_end = 10,
      d_confidence = 85 / 100, hipaa_identifier = ''#1 - Names''\<rparr>"

text \<open>A recognizer that tags the word before the number as an organization.\<close>

definition org_model :: nlp where
  "org_model text = Inr [\<lparr>label = ''ORG'', ent_text = ''SIN'', start_char = 0, end_char = 3\<rparr>]"

definition ex_org :: detection where
  "ex_org = \<lparr>d_type = ''ORGANIZATION'', d_value = ''SIN'', d_start = 0, d_end = 3,
      d_confidence = 85 / 100, hipaa_identifier = ''Organization name (potential identifier)''\<rparr>"

text \<open>
  Sixteen digits in four groups separated by line feeds, and nine equal digits in three
  groups separated by tabs.
\<close>

definition ex_lines :: string where
  "ex_lines = ''2020'' @ [char_of (10::nat)] @ ''2021'' @ [char_of (10::nat)] @ ''2022''
     @ [char_of (10::nat)] @ ''2023''"

definition ex_tabs :: string where
  "ex_tabs = ''111'' @ [char_of (9::nat)] @ ''111'' @ [char_of (9::nat)] @ ''111''"

definition ex_email :: detection where
  "ex_email = \<lparr>d_type = ''Email Address'', d_value = ''test@test.com'', d_start = 0, d_end = 13,
      d_confidence = 95 / 100, hipaa_identifier = ''Email address''\<rparr>"

definition ex_date :: detection where
  "ex_date = \<lparr>d_type = ''DATE'', d_value = ''test@test.com'', d_start = 0, d_end = 13,
      d_confidence = 85 / 100, hipaa_identifier = ''#7 - Dates''\<rparr>"

definition ex_name :: detection where
  "ex_name = \<lparr>d_type = ''NAME'', d_value = ''Alice'', d_start = 20, d_end = 25,
      d_confidence = 85 / 100, hipaa_identifier = ''#1 - Names''\<rparr>"

definition ex_sin :: detection where
  "ex_sin = \<lparr>d_type = ''Social Insurance Number (SIN)'', d_value = ''123-456-789'',
      d_start = 5, d_end = 16, d_confidence = 85 / 100,
      hipaa_identifier = ''National identification number''\<rparr>"

definition ex_card :: detection where
  "ex_card = \<lparr>d_type = ''Credit Card Number'', d_value = ''4532-0151-1283-0366'',
      d_start = 6, d_end = 25, d_confidence = 9 / 10, hipaa_identifier = ''Account number''\<rparr>"

definition ex_sin0 :: detection where
  "ex_sin0 = \<lparr>d_type = ''Social Insurance Number (SIN)'', d_value = ''123-456-789'',
      d_start = 0, d_end = 11, d_confidence = 85 / 100,
      hipaa_identifier = ''National identification number''\<rparr>"

definition ex_phone :: detection where
  "ex_phone = \<lparr>d_type = ''Phone Number'', d_value = ''456-789-1234'',
      d_start = 4, d_end = 16, d_confidence = 8 / 10,
      hipaa_identifier = ''Telephone number''\<rparr>"

definition ex_phn :: detection where
  "ex_phn = \<lparr>d_type = ''Personal Health Number (PHN)'', d_value = ''1234567890'',
      d_start = 5, d_end = 15, d_confidence = 9 / 10,
      hipaa_identifier = ''Health plan beneficiary number''\<rparr>"

section \<open>Merging: what is kept, and in which order\<close>

lemma overlaps_any_iff:
  "overlaps_any e G \<longleftrightarrow> (\<exists>g \<in> set G. span_overlap e g)"
  by (induction G) auto

lemma merge_loop_eq:
  "merge_loop G acc E = acc @ filter (\<lambda>e. \<not> overlaps_any e G) E"
  by (induction E arbitrary: acc) auto

text \<open>
  Claim C1. For all lists G (grammar detections) and E (recognizer detections), the merge
  returns exactly the elements of G together with those elements e of E for which no g of G
  has \<^verbatim>\<open>not (e.end <= g.start or e.start >= g.end)\<close>, each as often as it occurs, and
  the returned list is sorted ascending by start.
\<close>

theorem merge_detections_exact:
  "mset (merge_detections G E) =
     mset G + mset (filter (\<lambda>e. \<forall>g \<in> set G. d_end e \<le> d_start g \<or> d_start e \<ge> d_end g) E)
   \<and> sorted (map d_start (merge_detections G E))"
proof -
  have same: "(\<lambda>e. \<not> overlaps_any e G) =
      (\<lambda>e. \<forall>g \<in> set G. d_end e \<le> d_start g \<or> d_start e \<ge> d_end g)"
    by (auto simp: overlaps_any_iff span_overlap_def fun_eq_iff)
  have "mset (merge_detections G E) = mset (G @ filter (\<lambda>e. \<not> overlaps_any e G) E)"
    unfolding merge_detections_def merge_loop_eq by simp
  then show ?thesis
    unfolding same by (simp add: merge_detections_def)
qed

theorem merge_detections_exact_witness:
  "mset (merge_detections [ex_email] [ex_date, ex_name]) = mset [ex_email] + mset [ex_name]
   \<and> sorted (map d_start (merge_detections [ex_email] [ex_date, ex_name]))"
  using merge_detections_exact [of "[ex_email]" "[ex_date, ex_name]"]
  by (simp add: ex_email_def ex_date_def ex_name_def)

section \<open>Risk classification\<close>

lemma has_high_risk_iff: "has_high_risk ds \<longleftrightarrow> (\<exists>d \<in> set ds. d_type d \<in> set high_risk_types)"
  by (induction ds) auto

text \<open>
  Claim C3. For every detection list whose types are in the canonical vocabulary, the
  classifier applies its rules in order: the empty list gives LOW; a detection of type
  'Social Insurance Number (SIN)', 'Credit Card Number' or 'Personal Health Number (PHN)'
  gives HIGH; otherwise three or more detections give MEDIUM; otherwise LOW.
\<close>

theorem calculate_risk_rules:
  assumes "\<forall>d \<in> set ds. d_type d \<in> set canonical_types"
  shows "calculate_risk ds =
     (if ds = [] then ''LOW''
      else if \<exists>d \<in> set ds. d_type d = ''Social Insurance Number (SIN)'' \<or>
                d_type d = ''Credit Card Number'' \<or> d_type d = ''Personal Health Number (PHN)''
        then ''HIGH''
      else if 3 \<le> length ds then ''MEDIUM''
      else ''LOW'')"
proof -
  have "has_high_risk ds \<longleftrightarrow> (\<exists>d \<in> set ds. d_type d = ''Social Insurance Number (SIN)'' \<or>
                d_type d = ''Credit Card Number'' \<or> d_type d = ''Personal Health Number (PHN)'')"
    unfolding has_high_risk_iff using assms
    by (auto simp: high_risk_types_def canonical_types_def)
  then show ?thesis by (simp add: calculate_risk_def)
qed

theorem calculate_risk_rules_witness:
  "calculate_risk [ex_email, ex_name, ex_name] = ''MEDIUM''"
proof -
  have vocabulary: "\<forall>d \<in> set [ex_email, ex_name, ex_name]. d_type d \<in> set canonical_types"
    by (simp add: ex_email_def ex_name_def canonical_types_def)
  show ?thesis
    using calculate_risk_rules [OF vocabulary] by (simp add: ex_email_def ex_name_def)
qed

text \<open>
  Claim C10. For every detection list the core classifier returns one of 'LOW', 'MEDIUM',
  'HIGH' and never 'CRITICAL'; the level 'CRITICAL' belongs to the downstream assessor of
  the chatbot, which returns it for a list holding a national ID number.
\<close>

theorem calculate_risk_three_tiers:
  "calculate_risk ds \<in> {''LOW'', ''MEDIUM'', ''HIGH''} \<and> calculate_risk ds \<noteq> ''CRITICAL''
   \<and> assess_risk_level [ex_sin] = ''CRITICAL''"
  by (simp add: calculate_risk_def assess_risk_level_def critical_types_def ex_sin_def)

section \<open>The Luhn check\<close>

lemma digits_of_str_digit_string:
  "list_all is_digit s \<Longrightarrow> digits_of_str s = Inr (map (\<lambda>c. code c - 48) s)"
  by (induction s) (auto simp: int_of_char_def)

lemma digits_of_str_Inr:
  "digits_of_str s = Inr ds \<Longrightarrow> list_all is_digit s \<and> ds = map (\<lambda>c. code c - 48) s"
  by (induction s arbitrary: ds) (auto simp: int_of_char_def split: sum.splits if_splits)

lemma every_second_Cons: "every_second (y # zs) = y # every_second (tl zs)"
  by (cases zs) auto

lemma fold_add_sum:
  "fold (\<lambda>d c. c + f d) xs (a::nat) = a + sum_list (map f xs)"
  by (induction xs arbitrary: a) auto

lemma digit_sum_double:
  "d < 10 \<Longrightarrow> sum_list (digits_of_nat (d * 2)) =
     (if 2 * d > 9 then (2 * d) div 10 + (2 * d) mod 10 else 2 * d)"
proof -
  assume "d < 10"
  then have "(d * 2) div 10 < 10" by simp
  then show ?thesis
    by (subst digits_of_nat.simps) (simp add: mult.commute)
qed

lemma luhn_terms_split:
  "\<forall>d \<in> set xs. d < 10 \<Longrightarrow>
   sum_list (luhn_terms False xs) =
     sum_list (every_second xs)
       + sum_list (map (\<lambda>d. sum_list (digits_of_nat (d * 2))) (every_second (tl xs)))"
proof (induction xs rule: every_second.induct)
  case 1
  then show ?case by simp
next
  case (2 x)
  then show ?case by simp
next
  case (3 x y zs)
  then have "y < 10" by simp
  from 3 show ?case
    by (simp add: every_second_Cons digit_sum_double [OF \<open>y < 10\<close>] del: digits_of_nat.simps)
qed

lemma luhn_check_digits:
  assumes "digits_of_str s = Inr ds"
  shows "luhn_check s = Inr (luhn_spec ds)"
proof -
  have "\<forall>d \<in> set ds. d < 10"
    using digits_of_str_Inr [OF assms] by (auto simp: list_all_iff is_digit_def)
  then have "\<forall>d \<in> set (rev ds). d < 10" by simp
  from luhn_terms_split [OF this] show ?thesis
    by (simp add: luhn_check_def assms luhn_spec_def fold_add_sum Let_def del: digits_of_nat.simps)
qed

lemma credit_card_loop_valid:
  "credit_card_loop text ms = Inr found \<Longrightarrow> d \<in> set found \<Longrightarrow>
   d_type d = ''Credit Card Number'' \<and>
   luhn_check (remove_char CHR '' '' (remove_char CHR ''-'' (d_value d))) = Inr True"
proof (induction ms arbitrary: found)
  case Nil
  then show ?case by simp
next
  case (Cons m ms)
  then show ?case
    by (auto simp: Let_def mk_detection_def split: sum.splits if_splits)
qed

lemma luhn_valid_card: "luhn_check ''4532015112830366'' = Inr True" by code_simp
lemma luhn_invalid_card: "luhn_check ''1234567890123456'' = Inr False" by code_simp
lemma luhn_zero_card: "luhn_check ''0000000000000000'' = Inr True" by code_simp

lemma detect_credit_card_example:
  "detect_credit_card ''Card: 4532-0151-1283-0366'' = Inr [ex_card]"
  unfolding ex_card_def by code_simp

text \<open>
  Claim C7. On every digit string the Luhn check of the code equals the algorithm of the
  specification (from the rightmost digit, double every second digit, add the digits of
  a doubled value above 9, sum everything, valid iff the total is 0 modulo 10); it is true
  on "4532015112830366", false on "1234567890123456", true on "0000000000000000"; and every
  detection that \<^verbatim>\<open>detect_credit_card\<close> emits is a Credit Card detection whose value,
  without its separators, passes the check.
\<close>

theorem luhn_check_correct:
  "(list_all is_digit s \<longrightarrow> luhn_check s = Inr (luhn_spec (map (\<lambda>c. code c - 48) s)))
   \<and> luhn_check ''4532015112830366'' = Inr True
   \<and> luhn_check ''1234567890123456'' = Inr False
   \<and> luhn_check ''0000000000000000'' = Inr True
   \<and> (detect_credit_card text = Inr found \<longrightarrow>
        (\<forall>d \<in> set found. d_type d = ''Credit Card Number'' \<and>
           luhn_check (remove_char CHR '' '' (remove_char CHR ''-'' (d_value d))) = Inr True))"
  using luhn_check_digits [OF digits_of_str_digit_string, of s] luhn_valid_card luhn_invalid_card luhn_zero_card
    credit_card_loop_valid [of "text" "finditer credit_card_pattern text" found]
  by (auto simp: detect_credit_card_def)

theorem luhn_check_correct_witness:
  "luhn_check ''79927398713'' = Inr (luhn_spec [7, 9, 9, 2, 7, 3, 9, 8, 7, 1, 3])
   \<and> luhn_check (remove_char CHR '' '' (remove_char CHR ''-'' ''4532-0151-1283-0366'')) = Inr True"
proof -
  have digit_string: "list_all is_digit ''79927398713''"
    by code_simp
  have digit_values: "map (\<lambda>c. code c - 48) ''79927398713'' = [7, 9, 9, 2, 7, 3, 9, 8, 7, 1, 3]"
    by code_simp
  show ?thesis
    using luhn_check_correct [of "''79927398713''" "''Card: 4532-0151-1283-0366''" "[ex_card]"]
      digit_string digit_values detect_credit_card_example
    by (simp add: ex_card_def)
qed

section \<open>Redaction\<close>

lemma disjoint_spans_sym: "disjoint_spans a b = disjoint_spans b a"
  by (auto simp: disjoint_spans_def)

lemma non_overlapping_insort:
  "non_overlapping (insort_key f x xs) = (list_all (disjoint_spans x) xs \<and> non_overlapping xs)"
proof (induction xs)
  case Nil
  then show ?case by simp
next
  case (Cons y ys)
  then show ?case
    using disjoint_spans_sym [of x y] by (auto simp: list_all_iff set_insort_key)
qed

lemma non_overlapping_sort_key: "non_overlapping (sort_key f xs) = non_overlapping xs"
proof (induction xs)
  case Nil
  then show ?case by simp
next
  case (Cons x xs)
  have "sort_key f (x # xs) = insort_key f x (sort_key f xs)"
    by (simp add: sort_key_def)
  with Cons show ?case
    by (simp add: non_overlapping_insort list_all_iff)
qed

lemma non_overlapping_append:
  "non_overlapping (xs @ ys) =
     (non_overlapping xs \<and> non_overlapping ys \<and> (\<forall>x \<in> set xs. \<forall>y \<in> set ys. disjoint_spans x y))"
  by (induction xs) (auto simp: list_all_iff)

lemma non_overlapping_filter: "non_overlapping xs \<Longrightarrow> non_overlapping (filter P xs)"
  by (induction xs) (auto simp: list_all_iff)

lemma non_overlapping_nth:
  "non_overlapping ds \<longleftrightarrow>
     (\<forall>i < length ds. \<forall>j < length ds. i \<noteq> j \<longrightarrow> disjoint_spans (ds ! i) (ds ! j))"
proof (induction ds)
  case Nil
  then show ?case by simp
next
  case (Cons d ds)
  show ?case
  proof
    assume L: "non_overlapping (d # ds)"
    show "\<forall>i < length (d # ds). \<forall>j < length (d # ds). i \<noteq> j \<longrightarrow>
            disjoint_spans ((d # ds) ! i) ((d # ds) ! j)"
    proof (intro allI impI)
      fix i j assume "i < length (d # ds)" "j < length (d # ds)" "i \<noteq> j"
      with L Cons show "disjoint_spans ((d # ds) ! i) ((d # ds) ! j)"
        using disjoint_spans_sym
        by (cases i; cases j) (auto simp: list_all_iff)
    qed
  next
    assume R: "\<forall>i < length (d # ds). \<forall>j < length (d # ds). i \<noteq> j \<longrightarrow>
            disjoint_spans ((d # ds) ! i) ((d # ds) ! j)"
    have "disjoint_spans d y" if "y \<in> set ds" for y
    proof -
      from that obtain k where "k < length ds" "ds ! k = y" by (auto simp: in_set_conv_nth)
      with R [rule_format, of 0 "Suc k"] show ?thesis by simp
    qed
    moreover have "disjoint_spans (ds ! i) (ds ! j)" if "i < length ds" "j < length ds" "i \<noteq> j" for i j
      using R [rule_format, of "Suc i" "Suc j"] that by simp
    ultimately show "non_overlapping (d # ds)"
      using Cons by (simp add: list_all_iff)
  qed
qed

lemma redact_loop_append:
  "redact_loop t (xs @ ys) = redact_loop (redact_loop t xs) ys"
  by (induction xs arbitrary: t) auto

lemma py_index_inside: "0 \<le> i \<Longrightarrow> i \<le> int (length s) \<Longrightarrow> py_index s i = nat i"
  by (simp add: py_index_def)

lemma splice_inside:
  assumes "0 \<le> d_start d" "d_start d \<le> d_end d" "d_end d \<le> int (length t)"
  shows "splice t d = take (nat (d_start d)) t @ placeholder (d_type d) @ drop (nat (d_end d)) t"
  using assms by (simp add: splice_def slice_to_def slice_from_def py_index_inside)

lemma redact_chain:
  "chain text cursor ds \<Longrightarrow> redact_loop text (rev ds) = take cursor text @ scan text cursor ds"
proof (induction ds arbitrary: cursor)
  case Nil
  then show ?case by simp
next
  case (Cons d ds)
  let ?s = "nat (d_start d)" and ?e = "nat (d_end d)"
  let ?rest = "scan text ?e ds"
  let ?buf = "take ?e text @ ?rest"
  from Cons.prems have bounds: "cursor \<le> ?s" "?s \<le> ?e" "?e \<le> length text" "0 \<le> d_start d"
      "d_start d \<le> d_end d"
    and tail: "chain text ?e ds"
    by auto
  have loop: "redact_loop text (rev ds) = ?buf"
    using Cons.IH [OF tail] .
  have len: "length (take ?e text) = ?e"
    using bounds by simp
  have "splice ?buf d = take ?s ?buf @ placeholder (d_type d) @ drop ?e ?buf"
    using bounds len by (intro splice_inside) auto
  also have "take ?s ?buf = take ?s text"
    using bounds(2) len by (simp add: min_def)
  also have "drop ?e ?buf = ?rest"
    using len by simp
  finally have step: "splice ?buf d = take ?s text @ placeholder (d_type d) @ ?rest" .
  have "take ?s text = take cursor text @ take (?s - cursor) (drop cursor text)"
    using bounds take_add [of cursor "?s - cursor" "text"] by simp
  with step loop show ?case
    by (simp add: redact_loop_append)
qed

lemma sorted_chain:
  "sorted (map d_start ds) \<Longrightarrow> non_overlapping ds \<Longrightarrow> \<forall>d \<in> set ds. valid_span text d \<Longrightarrow>
   \<forall>d \<in> set ds. int cursor \<le> d_start d \<Longrightarrow> chain text cursor ds"
proof (induction ds arbitrary: cursor)
  case Nil
  then show ?case by simp
next
  case (Cons d ds)
  have "int (nat (d_end d)) \<le> d_start x" if "x \<in> set ds" for x
  proof -
    from Cons.prems that have "disjoint_spans d x" "d_start d \<le> d_start x"
      "valid_span text x" "valid_span text d"
      by (auto simp: list_all_iff)
    then show ?thesis by (auto simp: disjoint_spans_def valid_span_def)
  qed
  then have "chain text (nat (d_end d)) ds"
    using Cons.prems by (intro Cons.IH) auto
  with Cons.prems show ?case by (auto simp: valid_span_def)
qed

lemma distinct_starts:
  "non_overlapping ds \<Longrightarrow> \<forall>d \<in> set ds. valid_span text d \<Longrightarrow> distinct (map d_start ds)"
proof (induction ds)
  case Nil
  then show ?case by simp
next
  case (Cons d ds)
  have "d_start d \<noteq> d_start x" if "x \<in> set ds" for x
  proof -
    from Cons.prems that have "disjoint_spans d x" "valid_span text x" "valid_span text d"
      by (auto simp: list_all_iff)
    then show ?thesis by (auto simp: disjoint_spans_def valid_span_def)
  qed
  with Cons show ?case by auto
qed

lemma filter_same_key:
  "distinct (map f xs) \<Longrightarrow> k \<in> set xs \<Longrightarrow> filter (\<lambda>x. f k = f x) xs = [k]"
proof (induction xs)
  case Nil
  then show ?case by simp
next
  case (Cons x xs)
  show ?case
  proof (cases "k = x")
    case True
    with Cons.prems have "filter (\<lambda>y. f k = f y) xs = []"
      by (auto simp: filter_empty_conv)
    with True show ?thesis by simp
  next
    case False
    with Cons.prems have "k \<in> set xs" by simp
    then have "f k \<in> f ` set xs" by simp
    with Cons.prems have "f k \<noteq> f x" by auto
    with Cons \<open>k \<in> set xs\<close> show ?thesis by simp
  qed
qed

lemma sort_key_rev:
  assumes "distinct (map f xs)"
  shows "sort_key f (rev xs) = sort_key f xs"
proof (rule properties_for_sort_key)
  show "mset (sort_key f xs) = mset (rev xs)" by simp
  show "sorted (map f (sort_key f xs))" by simp
  fix k assume "k \<in> set (sort_key f xs)"
  then have k: "k \<in> set xs" by simp
  have "filter (\<lambda>x. f k = f x) (sort_key f xs) = sort_key f (filter (\<lambda>x. f k = f x) xs)"
    by (simp add: filter_sort)
  also have "\<dots> = [k]" by (simp add: filter_same_key [OF assms k])
  also have "\<dots> = filter (\<lambda>x. f k = f x) (rev xs)"
    using filter_same_key [OF assms k] by (simp add: rev_filter [symmetric])
  finally show "filter (\<lambda>x. f k = f x) (sort_key f xs) = filter (\<lambda>x. f k = f x) (rev xs)" .
qed

lemma redact_text_scan:
  assumes "\<forall>d \<in> set ds. valid_span text d" "non_overlapping ds"
  shows "redact_text text ds = scan text 0 (sort_key d_start ds)"
proof -
  have "sorted_reverse ds = rev (sort_key d_start ds)"
    using sort_key_rev [OF distinct_starts [OF assms(2) assms(1)]]
    by (simp add: sorted_reverse_def)
  moreover have "chain text 0 (sort_key d_start ds)"
    using assms by (intro sorted_chain) (auto simp: non_overlapping_sort_key valid_span_def)
  ultimately have "redact_loop text (sorted_reverse ds) = scan text 0 (sort_key d_start ds)"
    using redact_chain [of "text" 0 "sort_key d_start ds"] by simp
  then show ?thesis
    by (simp add: redact_text_def)
qed

lemma placeholder_sin:
  "placeholder ''Social Insurance Number (SIN)'' = ''[SOCIAL_INSURANCE_NUMBER_(SIN)]''"
  by code_simp

text \<open>
  Claim C4. For every text and every list of detections whose spans are valid
  (0 <= start < end <= len(text)) and pairwise non-overlapping, redaction runs through the
  detections in descending order of start, splicing text[:start] + placeholder + text[end:],
  where the placeholder is '[' + the type name in capitals with each space replaced by '_'
  + ']' ('Social Insurance Number (SIN)' gives '[SOCIAL_INSURANCE_NUMBER_(SIN)]'); the
  result is the text read from left to right with each span replaced by its placeholder
  and every character outside the spans copied; and the empty list leaves the text
  unchanged.
\<close>

theorem redact_text_correct:
  assumes "\<forall>d \<in> set ds. valid_span text d" "non_overlapping ds"
  shows "redact_text text ds = redact_loop text (sorted_reverse ds)
    \<and> sorted (rev (map d_start (sorted_reverse ds)))
    \<and> mset (sorted_reverse ds) = mset ds
    \<and> (\<forall>t d. splice t d =
          slice_to t (d_start d) @ ''['' @ replace_char CHR '' '' CHR ''_'' (upper (d_type d)) @ '']''
            @ slice_from t (d_end d))
    \<and> placeholder ''Social Insurance Number (SIN)'' = ''[SOCIAL_INSURANCE_NUMBER_(SIN)]''
    \<and> redact_text text ds = scan text 0 (sort_key d_start ds)
    \<and> redact_text text [] = text"
proof -
  have loop: "redact_text text ds = redact_loop text (sorted_reverse ds)"
    by (cases ds) (simp_all add: redact_text_def sorted_reverse_def)
  have descending: "sorted (rev (map d_start (sorted_reverse ds)))"
    by (simp add: sorted_reverse_def rev_map [symmetric])
  have same: "mset (sorted_reverse ds) = mset ds"
    by (simp add: sorted_reverse_def)
  have spliced: "\<forall>t d. splice t d =
          slice_to t (d_start d) @ ''['' @ replace_char CHR '' '' CHR ''_'' (upper (d_type d)) @ '']''
            @ slice_from t (d_end d)"
    by (simp add: splice_def placeholder_def)
  have empty: "redact_text text [] = text"
    by (simp add: redact_text_def)
  from loop descending same spliced placeholder_sin redact_text_scan [OF assms] empty
  show ?thesis by blast
qed

theorem redact_text_correct_witness:
  "redact_text ''SIN: 123-456-789 of Alice'' [ex_name, ex_sin] =
     ''SIN: [SOCIAL_INSURANCE_NUMBER_(SIN)] of [NAME]''"
proof -
  have spans: "\<forall>d \<in> set [ex_name, ex_sin]. valid_span ''SIN: 123-456-789 of Alice'' d"
    by (simp add: valid_span_def ex_name_def ex_sin_def)
  have apart: "non_overlapping [ex_name, ex_sin]"
    by (simp add: disjoint_spans_def ex_name_def ex_sin_def)
  from redact_text_correct [OF spans apart]
  have "redact_text ''SIN: 123-456-789 of Alice'' [ex_name, ex_sin] =
      scan ''SIN: 123-456-789 of Alice'' 0 (sort_key d_start [ex_name, ex_sin])"
    by blast
  also have "\<dots> = ''SIN: [SOCIAL_INSURANCE_NUMBER_(SIN)] of [NAME]''"
    unfolding ex_name_def ex_sin_def by code_simp
  finally show ?thesis .
qed

section \<open>Overlaps in the merged list\<close>

lemma detect_all_sin_alice:
  "detect_all ''SIN: 123-456-789 of Alice'' = Inr [ex_sin]"
  unfolding ex_sin_def by code_simp

lemma detect_entities_alice:
  "detect_entities person_model ''SIN: 123-456-789 of Alice'' = Inr [ex_name]"
  unfolding ex_name_def by code_simp

lemma analyze_sin_alice:
  "analyze person_model (PyStr ''SIN: 123-456-789 of Alice'') =
     Inr \<lparr>has_phi = True, risk_level = ''HIGH'', detections = [ex_sin, ex_name],
          redacted_text = ''SIN: [SOCIAL_INSURANCE_NUMBER_(SIN)] of [NAME]''\<rparr>"
  unfolding ex_sin_def ex_name_def by code_simp

lemma merge_detections_non_overlapping:
  assumes "non_overlapping G" "non_overlapping E"
  shows "non_overlapping (merge_detections G E)"
proof -
  have "disjoint_spans g e" if "g \<in> set G" "e \<in> set E" "\<not> overlaps_any e G" for g e
    using that by (auto simp: overlaps_any_iff span_overlap_def disjoint_spans_def)
  with assms show ?thesis
    by (simp add: merge_detections_def merge_loop_eq non_overlapping_sort_key
        non_overlapping_append non_overlapping_filter)
qed

text \<open>
  Claim C2, as amended. For every text and every recognizer: when the grammar detections of
  the text are pairwise non-overlapping and the recognizer's detections are pairwise
  non-overlapping, every two distinct detections of the merged list that \<^verbatim>\<open>analyze\<close>
  returns have non-intersecting spans (end_i <= start_j or end_j <= start_i for i != j).
\<close>

theorem merged_pairwise_disjoint:
  assumes "detect_all text = Inr G" "detect_entities model text = Inr E"
    and "non_overlapping G" "non_overlapping E"
    and "analyze model (PyStr text) = Inr r"
  shows "\<forall>i < length (detections r). \<forall>j < length (detections r). i \<noteq> j \<longrightarrow>
           d_end (detections r ! i) \<le> d_start (detections r ! j)
         \<or> d_end (detections r ! j) \<le> d_start (detections r ! i)"
proof -
  from assms(1,2,5) have "detections r = merge_detections G E"
    by (auto simp: analyze_def Let_def)
  with merge_detections_non_overlapping [OF assms(3,4)]
  have "non_overlapping (detections r)" by simp
  then show ?thesis
    by (simp add: non_overlapping_nth disjoint_spans_def)
qed

theorem merged_pairwise_disjoint_witness:
  "d_end ex_sin \<le> d_start ex_name \<or> d_end ex_name \<le> d_start ex_sin"
proof -
  have grammar: "non_overlapping [ex_sin]" and entities: "non_overlapping [ex_name]"
    by simp_all
  from merged_pairwise_disjoint [OF detect_all_sin_alice detect_entities_alice grammar entities
      analyze_sin_alice, rule_format, of 0 1]
  show ?thesis by simp
qed

text \<open>
  The claim as stated, for every text and every recognizer output, fails in two ways. The
  merge compares recognizer detections with grammar detections only. On
  "123-456-789-1234" the grammar finds a national ID number at [0, 11) and a phone number
  at [4, 16), and both stay. On "John Smith", with a recognizer that returns the spans
  [0, 10) and [5, 10), both stay.
\<close>

theorem merged_overlap_counterexample:
  "analyze no_entities (PyStr ''123-456-789-1234'') =
     Inr \<lparr>has_phi = True, risk_level = ''HIGH'', detections = [ex_sin0, ex_phone],
          redacted_text = ''[SOCIAL_INSURANCE_NUMBER_(SIN)]NUMBER]''\<rparr>
   \<and> \<not> (d_end ex_sin0 \<le> d_start ex_phone \<or> d_end ex_phone \<le> d_start ex_sin0)
   \<and> analyze overlapping_model (PyStr ''John Smith'') =
     Inr \<lparr>has_phi = True, risk_level = ''LOW'', detections = [ex_full_name, ex_last_name],
          redacted_text = ''[NAME]]''\<rparr>
   \<and> \<not> (d_end ex_full_name \<le> d_start ex_last_name
          \<or> d_end ex_last_name \<le> d_start ex_full_name)"
  unfolding ex_sin0_def ex_phone_def ex_full_name_def ex_last_name_def by code_simp

section \<open>What a match consumes\<close>

lemma takeWhile_run:
  "n \<le> length (takeWhile P xs) \<Longrightarrow> k < n \<Longrightarrow> P (xs ! k)"
proof -
  assume "n \<le> length (takeWhile P xs)" "k < n"
  then have k: "k < length (takeWhile P xs)" by simp
  then have "takeWhile P xs ! k \<in> set (takeWhile P xs)" by (rule nth_mem)
  then have "P (takeWhile P xs ! k)" by (rule set_takeWhileD [THEN conjunct2])
  with k show ?thesis by (simp add: takeWhile_nth)
qed

lemma ends_Rep_bounds:
  assumes "e \<in> set (ends (Rep P lo hi) s i)" "i \<le> length s"
  shows "i + lo \<le> e \<and> e \<le> length s \<and> (\<forall>k. i \<le> k \<and> k < e \<longrightarrow> P (s ! k))"
proof -
  let ?n = "length (takeWhile P (drop i s))"
  from assms(1) have "i + lo \<le> e \<and> e \<le> i + ?n"
    by (auto simp: Let_def split: if_splits option.splits)
  then obtain k where k: "e = i + k" "lo \<le> k" "k \<le> ?n"
    by (intro that [of "e - i"]) auto
  have "?n \<le> length (drop i s)" by (rule length_takeWhile_le)
  with k assms(2) have "e \<le> length s" by simp
  moreover have "P (s ! j)" if "i \<le> j" "j < e" for j
  proof -
    from that k have "j - i < k" by simp
    then have "P (drop i s ! (j - i))"
      by (rule takeWhile_run [OF k(3)])
    with that assms(2) \<open>e \<le> length s\<close> show ?thesis by simp
  qed
  ultimately show ?thesis using k by simp
qed

lemma ends_bounds:
  "e \<in> set (ends r s i) \<Longrightarrow> i \<le> length s \<Longrightarrow>
   i + min_len r \<le> e \<and> e \<le> length s \<and> (\<forall>k. i \<le> k \<and> k < e \<longrightarrow> accepts r (s ! k))"
proof (induction r arbitrary: i e)
  case Eps
  then show ?case by simp
next
  case (Rep P lo hi)
  from ends_Rep_bounds [OF Rep.prems] show ?case by simp
next
  case WordB
  then show ?case by (simp split: if_splits)
next
  case (Seq a b)
  from Seq.prems(1) obtain m where m: "m \<in> set (ends a s i)" "e \<in> set (ends b s m)"
    by auto
  from Seq.IH(1) [OF m(1) Seq.prems(2)]
  have a: "i + min_len a \<le> m" "m \<le> length s" "\<forall>k. i \<le> k \<and> k < m \<longrightarrow> accepts a (s ! k)"
    by auto
  from Seq.IH(2) [OF m(2) a(2)]
  have b: "m + min_len b \<le> e" "e \<le> length s" "\<forall>k. m \<le> k \<and> k < e \<longrightarrow> accepts b (s ! k)"
    by auto
  have "accepts (Seq a b) (s ! k)" if "i \<le> k" "k < e" for k
    using that a(3) b(3) by (cases "k < m") auto
  with a b show ?case by simp
next
  case (Alt a b)
  from Alt.prems(1) have "e \<in> set (ends a s i) \<or> e \<in> set (ends b s i)" by simp
  then show ?case
  proof
    assume "e \<in> set (ends a s i)"
    from Alt.IH(1) [OF this Alt.prems(2)] show ?thesis by auto
  next
    assume "e \<in> set (ends b s i)"
    from Alt.IH(2) [OF this Alt.prems(2)] show ?thesis by auto
  qed
qed

lemma finditer_from_matches:
  "(i, e) \<in> set (finditer_from r s pos) \<Longrightarrow> i \<le> length s \<and> e \<in> set (ends r s i)"
proof (induction r s pos rule: finditer_from.induct)
  case (1 r s pos)
  show ?case
  proof (cases "length s < pos")
    case True
    with 1 show ?thesis by (simp add: finditer_from.simps [of r s pos])
  next
    case False
    show ?thesis
    proof (cases "ends r s pos")
      case Nil
      with False 1 show ?thesis by (simp add: finditer_from.simps [of r s pos])
    next
      case (Cons e' es')
      with False "1.prems" have "(i, e) = (pos, e') \<or>
          (i, e) \<in> set (finditer_from r s (if pos < e' then e' else Suc pos))"
        by (simp add: finditer_from.simps [of r s pos])
      then show ?thesis
      proof
        assume "(i, e) = (pos, e')"
        with Cons False show ?thesis by simp
      next
        assume "(i, e) \<in> set (finditer_from r s (if pos < e' then e' else Suc pos))"
        with "1.IH"(2) [OF False Cons] show ?thesis by simp
      qed
    qed
  qed
qed

lemma patterns_consume:
  "0 < min_len sin_pattern" "0 < min_len phn_pattern" "0 < min_len phone_pattern"
  "0 < min_len email_pattern" "0 < min_len credit_card_pattern"
  "0 < min_len postal_code_pattern" "0 < min_len ip_pattern" "0 < min_len date_pattern"
  by (simp_all add: sin_pattern_def phn_pattern_def phone_pattern_def email_pattern_def
      credit_card_pattern_def postal_code_pattern_def ip_pattern_def date_pattern_def
      seqs_def digits_def lit_def opt_sep_def letter_ic_def dash_or_slash_def)

lemma finditer_match_chars:
  assumes "(i, e) \<in> set (finditer r s)" "c \<in> set (group s (i, e))"
  shows "accepts r c \<and> c \<in> set s"
proof -
  from finditer_from_matches [OF assms(1) [unfolded finditer_def]]
  have "i \<le> length s" "e \<in> set (ends r s i)" by auto
  from ends_bounds [OF this(2,1)]
  have b: "e \<le> length s" "\<forall>k. i \<le> k \<and> k < e \<longrightarrow> accepts r (s ! k)" by auto
  from assms(2) obtain j where j: "j < e - i" "c = s ! (i + j)"
    using b(1) by (auto simp: group_def in_set_conv_nth)
  with b show ?thesis by simp
qed

lemma luhn_check_returns: "list_all is_digit s \<Longrightarrow> \<exists>b. luhn_check s = Inr b"
  using luhn_check_digits [OF digits_of_str_digit_string] by blast

lemma credit_card_loop_returns:
  assumes "\<forall>m \<in> set ms. \<forall>c \<in> set (group text m). is_digit c \<or> c = CHR ''-'' \<or> c = CHR '' ''"
  shows "\<exists>ds. credit_card_loop text ms = Inr ds"
  using assms
proof (induction ms)
  case Nil
  then show ?case by simp
next
  case (Cons m ms)
  then have "list_all is_digit (remove_char CHR '' '' (remove_char CHR ''-'' (group text m)))"
    by (auto simp: list_all_iff remove_char_def)
  from luhn_check_returns [OF this] obtain b where
    "luhn_check (remove_char CHR '' '' (remove_char CHR ''-'' (group text m))) = Inr b" ..
  moreover from Cons obtain ds where "credit_card_loop text ms = Inr ds" by auto
  ultimately show ?case by (simp add: Let_def)
qed

lemma detect_credit_card_returns:
  assumes "\<forall>c \<in> set text. is_space c \<longrightarrow> c = CHR '' ''"
  shows "\<exists>ds. detect_credit_card text = Inr ds"
  unfolding detect_credit_card_def
proof (rule credit_card_loop_returns, intro ballI)
  fix m c assume m: "m \<in> set (finditer credit_card_pattern text)" and c: "c \<in> set (group text m)"
  obtain i e where ie: "m = (i, e)" by (cases m)
  from finditer_match_chars [of i e credit_card_pattern "text" c] m c ie
  have "accepts credit_card_pattern c" "c \<in> set text" by auto
  with assms show "is_digit c \<or> c = CHR ''-'' \<or> c = CHR '' ''"
    by (auto simp: credit_card_pattern_def seqs_def digits_def opt_sep_def)
qed

lemma ends_lit:
  "e \<in> set (ends (lit c) s i) \<Longrightarrow> e = Suc i \<and> i < length s \<and> s ! i = c"
proof -
  assume a: "e \<in> set (ends (lit c) s i)"
  let ?n = "length (takeWhile (\<lambda>x. x = c) (drop i s))"
  from a have e: "e = Suc i" and n: "1 \<le> ?n"
    by (auto simp: lit_def Let_def split: if_splits)
  have "?n \<le> length (drop i s)" by (rule length_takeWhile_le)
  with n have "i < length s" by simp
  moreover from takeWhile_run [OF n, of 0] have "drop i s ! 0 = c" by simp
  ultimately show ?thesis using e by simp
qed

lemma ends_digits:
  assumes "e \<in> set (ends (digits lo hi) s i)" "i \<le> length s"
  shows "i + lo \<le> e \<and> e \<le> length s \<and> list_all is_digit (take (e - i) (drop i s))"
proof -
  from ends_Rep_bounds [OF assms(1) [unfolded digits_def] assms(2)]
  have b: "i + lo \<le> e" "e \<le> length s" "\<forall>k. i \<le> k \<and> k < e \<longrightarrow> is_digit (s ! k)" by auto
  have "is_digit c" if "c \<in> set (take (e - i) (drop i s))" for c
  proof -
    from that b obtain j where "j < e - i" "c = s ! (i + j)"
      by (auto simp: in_set_conv_nth)
    with b(3) show ?thesis by simp
  qed
  with b show ?thesis by (simp add: list_all_iff)
qed

lemma group_split:
  assumes "i \<le> m" "Suc m \<le> e" "e \<le> length s"
  shows "group s (i, e) = group s (i, m) @ s ! m # group s (Suc m, e)"
proof -
  have "take (e - i) (drop i s) = take (m - i) (drop i s) @ take (e - m) (drop m s)"
    using assms take_add [of "m - i" "e - m" "drop i s"] by simp
  also have "take (e - m) (drop m s) = s ! m # take (e - Suc m) (drop (Suc m) s)"
    using assms by (simp add: Cons_nth_drop_Suc [symmetric] take_Suc_Cons [symmetric]
        Suc_diff_Suc del: take_Suc_Cons)
  finally show ?thesis by (simp add: group_def)
qed

lemma split_on_digits:
  "list_all is_digit ds \<Longrightarrow> split_on CHR ''.'' (ds @ CHR ''.'' # rest) = ds # split_on CHR ''.'' rest"
  by (induction ds) (auto simp: is_digit_def code_def split: list.splits)

lemma split_on_digits_last:
  "list_all is_digit ds \<Longrightarrow> split_on CHR ''.'' ds = [ds]"
  by (induction ds) (auto simp: is_digit_def code_def split: list.splits)

lemma py_int_returns: "list_all is_digit ds \<Longrightarrow> ds \<noteq> [] \<Longrightarrow> \<exists>v. py_int ds = Inr v"
  by (simp add: py_int_def digits_of_str_digit_string)

lemma ip_match_octets:
  assumes "e \<in> set (ends ip_pattern s i)" "i \<le> length s"
  shows "\<exists>d1 d2 d3 d4. group s (i, e) = d1 @ CHR ''.'' # d2 @ CHR ''.'' # d3 @ CHR ''.'' # d4
           \<and> list_all is_digit d1 \<and> d1 \<noteq> [] \<and> list_all is_digit d2 \<and> d2 \<noteq> []
           \<and> list_all is_digit d3 \<and> d3 \<noteq> [] \<and> list_all is_digit d4 \<and> d4 \<noteq> []"
proof -
  from assms(1) obtain m1 p1 m2 p2 m3 p3 where
    steps: "m1 \<in> set (ends (digits 1 3) s i)" "p1 \<in> set (ends (lit CHR ''.'') s m1)"
      "m2 \<in> set (ends (digits 1 3) s p1)" "p2 \<in> set (ends (lit CHR ''.'') s m2)"
      "m3 \<in> set (ends (digits 1 3) s p2)" "p3 \<in> set (ends (lit CHR ''.'') s m3)"
      "e \<in> set (ends (digits 1 3) s p3)"
    by (auto simp: ip_pattern_def seqs_def split: if_splits)
  from ends_digits [OF steps(1) assms(2)]
  have a1: "i + 1 \<le> m1" "m1 \<le> length s" "list_all is_digit (group s (i, m1))"
    by (auto simp: group_def)
  from ends_lit [OF steps(2)] have b1: "p1 = Suc m1" "m1 < length s" "s ! m1 = CHR ''.''" by auto
  then have l1: "p1 \<le> length s" by simp
  from ends_digits [OF steps(3) l1]
  have a2: "p1 + 1 \<le> m2" "m2 \<le> length s" "list_all is_digit (group s (p1, m2))"
    by (auto simp: group_def)
  from ends_lit [OF steps(4)] have b2: "p2 = Suc m2" "m2 < length s" "s ! m2 = CHR ''.''" by auto
  then have l2: "p2 \<le> length s" by simp
  from ends_digits [OF steps(5) l2]
  have a3: "p2 + 1 \<le> m3" "m3 \<le> length s" "list_all is_digit (group s (p2, m3))"
    by (auto simp: group_def)
  from ends_lit [OF steps(6)] have b3: "p3 = Suc m3" "m3 < length s" "s ! m3 = CHR ''.''" by auto
  then have l3: "p3 \<le> length s" by simp
  from ends_digits [OF steps(7) l3]
  have a4: "p3 + 1 \<le> e" "e \<le> length s" "list_all is_digit (group s (p3, e))"
    by (auto simp: group_def)
  have g3: "group s (p2, e) = group s (p2, m3) @ CHR ''.'' # group s (p3, e)"
    using group_split [of p2 m3 e s] a3 a4 b3 by simp
  have g2: "group s (p1, e) = group s (p1, m2) @ CHR ''.'' # group s (p2, e)"
    using group_split [of p1 m2 e s] a2 a3 a4 b2 b3 by simp
  have g1: "group s (i, e) = group s (i, m1) @ CHR ''.'' # group s (p1, e)"
    using group_split [of i m1 e s] a1 a2 a3 a4 b1 b2 b3 by simp
  have n1: "group s (i, m1) \<noteq> []" using a1 by (simp add: group_def)
  have n2: "group s (p1, m2) \<noteq> []" using a2 by (simp add: group_def)
  have n3: "group s (p2, m3) \<noteq> []" using a3 by (simp add: group_def)
  have n4: "group s (p3, e) \<noteq> []" using a4 by (simp add: group_def)
  from g1 g2 g3 have "group s (i, e) = group s (i, m1) @ CHR ''.'' # group s (p1, m2)
      @ CHR ''.'' # group s (p2, m3) @ CHR ''.'' # group s (p3, e)"
    by simp
  with a1(3) a2(3) a3(3) a4(3) n1 n2 n3 n4 show ?thesis by blast
qed

lemma octets_ok_returns:
  "\<forall>octet \<in> set octets. \<exists>v. py_int octet = Inr v \<Longrightarrow> \<exists>b. octets_ok octets = Inr b"
  by (induction octets) auto

lemma ip_loop_returns:
  "\<forall>m \<in> set ms. \<exists>b. octets_ok (split_on CHR ''.'' (group text m)) = Inr b \<Longrightarrow>
   \<exists>ds. ip_loop text ms = Inr ds"
  by (induction ms) auto

lemma detect_ip_returns: "\<exists>ds. detect_ip text = Inr ds"
  unfolding detect_ip_def
proof (rule ip_loop_returns, intro ballI)
  fix m assume m: "m \<in> set (finditer ip_pattern text)"
  obtain i e where ie: "m = (i, e)" by (cases m)
  from finditer_from_matches [of i e ip_pattern "text" 0] m ie
  have "i \<le> length text" "e \<in> set (ends ip_pattern text i)"
    by (auto simp: finditer_def)
  from ip_match_octets [OF this(2,1)] obtain d1 d2 d3 d4 where
    g: "group text (i, e) = d1 @ CHR ''.'' # d2 @ CHR ''.'' # d3 @ CHR ''.'' # d4"
    and d: "list_all is_digit d1" "d1 \<noteq> []" "list_all is_digit d2" "d2 \<noteq> []"
      "list_all is_digit d3" "d3 \<noteq> []" "list_all is_digit d4" "d4 \<noteq> []"
    by blast
  from d have "split_on CHR ''.'' (group text (i, e)) = [d1, d2, d3, d4]"
    by (simp add: g split_on_digits split_on_digits_last)
  moreover have "\<exists>b. octets_ok [d1, d2, d3, d4] = Inr b"
    using d by (intro octets_ok_returns) (auto intro: py_int_returns)
  ultimately show "\<exists>b. octets_ok (split_on CHR ''.'' (group text m)) = Inr b"
    using ie by simp
qed

lemma detect_all_returns:
  assumes "\<forall>c \<in> set text. is_space c \<longrightarrow> c = CHR '' ''"
  shows "\<exists>G. detect_all text = Inr G"
proof -
  from detect_credit_card_returns [OF assms] obtain cc where "detect_credit_card text = Inr cc" ..
  moreover from detect_ip_returns obtain ip where "detect_ip text = Inr ip" ..
  ultimately show ?thesis by (simp add: detect_all_def Let_def)
qed

text \<open>
  The separator class of the card pattern is \<^verbatim>\<open>[-\s]\<close>, while the detector strips
  only the hyphen and the blank before the Luhn check: on a card number whose groups are
  separated by tabs, \<^verbatim>\<open>int\<close> meets a tab and the detector raises.
\<close>

lemma detect_credit_card_tab:
  "detect_credit_card (''4532'' @ [char_of (9::nat)] @ ''0151'' @ [char_of (9::nat)] @ ''1283''
      @ [char_of (9::nat)] @ ''0366'') = Inl ValueError"
  by code_simp

section \<open>The pipeline on examples\<close>

lemma detect_all_sin_example:
  "detect_all ''SIN: 123-456-789'' =
     Inr [\<lparr>d_type = ''Social Insurance Number (SIN)'', d_value = ''123-456-789'',
           d_start = 5, d_end = 16, d_confidence = 85 / 100,
           hipaa_identifier = ''National identification number''\<rparr>]"
  by code_simp

lemma detect_all_email_example:
  "detect_all ''test@test.com'' = Inr [ex_email]"
  unfolding ex_email_def by code_simp

lemma detect_all_plain_example: "detect_all ''hello world'' = Inr []"
  by code_simp

lemma detect_all_empty: "detect_all '''' = Inr []"
  by code_simp

lemma set_merge_detections:
  "set (merge_detections G E) = set G \<union> {e \<in> set E. \<not> overlaps_any e G}"
  by (auto simp: merge_detections_def merge_loop_eq)

lemma merge_detections_Nil: "merge_detections [] [] = []"
  by (simp add: merge_detections_def)

lemma analyze_no_detections:
  assumes "detect_all text = Inr []" "detect_entities model text = Inr []"
  shows "analyze model (PyStr text) =
     Inr \<lparr>has_phi = False, risk_level = ''LOW'', detections = [], redacted_text = text\<rparr>"
  using assms
  by (simp add: analyze_def merge_detections_Nil calculate_risk_def redact_text_def)

lemma entity_loop_Nil: "entity_loop [] = Inr []"
  by simp

lemma detect_entities_Nil: "model text = Inr [] \<Longrightarrow> detect_entities model text = Inr []"
  by (simp add: detect_entities_def)

section \<open>Failure of the recognizer\<close>

text \<open>
  Claim C5, as amended. A failure of the entity recognizer is not absorbed: when the
  recognizer raises during detection on a text, \<^verbatim>\<open>analyze\<close> raises too (the
  recognizer's exception, or the exception of the grammar pass when that one, which runs
  first, raises) and returns no grammar-only result; and when loading the recognizer
  fails, the constructor of the detector raises that exception, so that there is no
  detector to call.
\<close>

theorem recognizer_failure_propagates:
  "(model text = Inl e \<longrightarrow>
      analyze model (PyStr text) = (case detect_all text of Inl e' \<Rightarrow> Inl e' | Inr G \<Rightarrow> Inl e))
   \<and> phi_detector_init (Inl e) = Inl e"
  by (auto simp: analyze_def detect_entities_def phi_detector_init_def ner_detector_init_def
      split: sum.splits)

theorem recognizer_failure_propagates_witness:
  "analyze failing_model (PyStr ''SIN: 123-456-789'') = Inl RuntimeError"
proof -
  have raised: "failing_model ''SIN: 123-456-789'' = Inl RuntimeError"
    by (simp add: failing_model_def)
  from recognizer_failure_propagates [of failing_model "''SIN: 123-456-789''" RuntimeError] raised
  show ?thesis by (simp add: detect_all_sin_example)
qed

text \<open>
  The claim as stated fails: with a recognizer that raises, \<^verbatim>\<open>analyze\<close> raises on a text
  whose grammar pass succeeds, and a failed load makes the constructor raise.
\<close>

theorem recognizer_failure_counterexample:
  "analyze failing_model (PyStr ''test@test.com'') = Inl RuntimeError
   \<and> phi_detector_init (Inl OSError) = Inl OSError"
  by (simp add: analyze_def detect_all_email_example detect_entities_def failing_model_def
      phi_detector_init_def ner_detector_init_def)

section \<open>Findings and empty results\<close>

text \<open>
  Claim C9, as amended. When \<^verbatim>\<open>analyze\<close> returns, it reports findings iff the merged
  detection list is not empty; for the empty text (the recognizer returning only spans
  that lie in the text, hence none), and for any text on which the grammar pass returns
  the empty list and the recognizer returns no span, the result has no findings, an empty
  detection list, risk LOW and the input text as redacted text. Not covered are a null
  text and a text on which the grammar pass raises instead of returning; the grammar pass
  returns, and with it \<^verbatim>\<open>analyze\<close> when the recognizer does, on every text whose white
  space consists of blanks only.
\<close>

theorem analyze_findings:
  "(analyze model (PyStr text) = Inr r \<longrightarrow> (has_phi r \<longleftrightarrow> detections r \<noteq> []))
   \<and> (model '''' = Inr ents
        \<and> (\<forall>ent \<in> set ents. 0 \<le> start_char ent \<and> start_char ent < end_char ent
              \<and> end_char ent \<le> int (length ''''))
      \<longrightarrow> analyze model (PyStr '''') =
            Inr \<lparr>has_phi = False, risk_level = ''LOW'', detections = [], redacted_text = ''''\<rparr>)
   \<and> (detect_all text = Inr [] \<and> detect_entities model text = Inr []
      \<longrightarrow> analyze model (PyStr text) =
            Inr \<lparr>has_phi = False, risk_level = ''LOW'', detections = [], redacted_text = text\<rparr>)
   \<and> ((\<forall>c \<in> set text. is_space c \<longrightarrow> c = CHR '' '') \<and> detect_entities model text = Inr E
      \<longrightarrow> (\<exists>r. analyze model (PyStr text) = Inr r))"
proof (intro conjI impI)
  assume "analyze model (PyStr text) = Inr r"
  then show "has_phi r \<longleftrightarrow> detections r \<noteq> []"
    by (auto simp: analyze_def Let_def split: sum.splits)
next
  assume a: "model '''' = Inr ents
        \<and> (\<forall>ent \<in> set ents. 0 \<le> start_char ent \<and> start_char ent < end_char ent
              \<and> end_char ent \<le> int (length ''''))"
  have "ents = []"
  proof (cases ents)
    case Nil
    then show ?thesis .
  next
    case (Cons x xs)
    with a have "0 \<le> start_char x \<and> start_char x < end_char x \<and> end_char x \<le> 0" by simp
    then have False by linarith
    then show ?thesis ..
  qed
  with a have "detect_entities model '''' = Inr []"
    by (simp add: detect_entities_Nil)
  with detect_all_empty
  show "analyze model (PyStr '''') =
      Inr \<lparr>has_phi = False, risk_level = ''LOW'', detections = [], redacted_text = ''''\<rparr>"
    by (rule analyze_no_detections)
next
  assume "detect_all text = Inr [] \<and> detect_entities model text = Inr []"
  then show "analyze model (PyStr text) =
      Inr \<lparr>has_phi = False, risk_level = ''LOW'', detections = [], redacted_text = text\<rparr>"
    by (simp add: analyze_no_detections)
next
  assume b: "(\<forall>c \<in> set text. is_space c \<longrightarrow> c = CHR '' '') \<and> detect_entities model text = Inr E"
  then obtain G where "detect_all text = Inr G"
    using detect_all_returns [of "text"] by blast
  with b show "\<exists>r. analyze model (PyStr text) = Inr r"
    by (simp add: analyze_def Let_def)
qed

theorem analyze_findings_witness:
  "analyze no_entities (PyStr ''hello world'') =
     Inr \<lparr>has_phi = False, risk_level = ''LOW'', detections = [], redacted_text = ''hello world''\<rparr>
   \<and> analyze no_entities (PyStr '''') =
     Inr \<lparr>has_phi = False, risk_level = ''LOW'', detections = [], redacted_text = ''''\<rparr>"
proof -
  have no_spans: "detect_entities no_entities ''hello world'' = Inr []"
    by (simp add: detect_entities_def no_entities_def)
  have empty: "no_entities '''' = Inr []"
    by (simp add: no_entities_def)
  have plain: "analyze no_entities (PyStr ''hello world'') =
     Inr \<lparr>has_phi = False, risk_level = ''LOW'', detections = [], redacted_text = ''hello world''\<rparr>"
    by (rule mp [OF conjunct1 [OF conjunct2 [OF conjunct2 [OF analyze_findings]]]])
      (simp add: detect_all_plain_example no_spans)
  have blank: "analyze no_entities (PyStr '''') =
     Inr \<lparr>has_phi = False, risk_level = ''LOW'', detections = [], redacted_text = ''''\<rparr>"
    by (rule mp [OF conjunct1 [OF conjunct2 [OF analyze_findings [where ents = "[]"]]]])
      (simp add: empty)
  from plain blank show ?thesis ..
qed

text \<open>
  The claim as stated fails in two ways. On a null text \<^verbatim>\<open>analyze(None)\<close> raises
  \<^verbatim>\<open>TypeError\<close>. On sixteen digits in four groups separated by line feeds no detector
  recognizes an identifier (the only candidate is the card pattern's, and its digits fail the
  Luhn check), yet the card detector, which strips only '-' and the blank, raises
  \<^verbatim>\<open>ValueError\<close>, and so does \<^verbatim>\<open>analyze\<close>.
\<close>

theorem analyze_raises_counterexample:
  "analyze no_entities PyNone = Inl TypeError
   \<and> detect_sin ex_lines = [] \<and> detect_phn ex_lines = [] \<and> detect_phone ex_lines = []
   \<and> detect_email ex_lines = [] \<and> detect_postal_code ex_lines = []
   \<and> detect_ip ex_lines = Inr [] \<and> detect_date ex_lines = []
   \<and> finditer credit_card_pattern ex_lines = [(0, 19)]
   \<and> luhn_check ''2020202120222023'' = Inr False
   \<and> detect_credit_card ex_lines = Inl ValueError
   \<and> analyze no_entities (PyStr ex_lines) = Inl ValueError"
  unfolding ex_lines_def by code_simp

section \<open>The national ID scenarios\<close>

lemma finditer_sin_same_digits: "finditer sin_pattern ''111-111-111'' = [(0, 11)]"
  by code_simp

lemma detect_sin_same_digits: "detect_sin ''111-111-111'' = []"
  by code_simp

lemma sin_loop_distinct:
  "d \<in> set (sin_loop text ms) \<Longrightarrow>
   1 < length (remdups (remove_char CHR '' '' (remove_char CHR ''-'' (d_value d))))"
  by (induction ms) (auto simp: Let_def mk_detection_def split: if_splits)

lemma merge_single_grammar:
  "mset (merge_detections [g] E) =
     {#g#} + mset (filter (\<lambda>e. d_end e \<le> d_start g \<or> d_end g \<le> d_start e) E)"
proof -
  have "(\<lambda>e. \<not> overlaps_any e [g]) = (\<lambda>e. d_end e \<le> d_start g \<or> d_end g \<le> d_start e)"
    by (auto simp: span_overlap_def fun_eq_iff)
  then show ?thesis
    by (simp add: merge_detections_def merge_loop_eq)
qed

lemma merge_single_all_overlap:
  assumes "\<forall>e \<in> set E. \<not> (d_end e \<le> d_start g \<or> d_end g \<le> d_start e)"
  shows "merge_detections [g] E = [g]"
proof -
  have "filter (\<lambda>e. \<not> overlaps_any e [g]) E = []"
    using assms by (auto simp: filter_empty_conv span_overlap_def)
  then show ?thesis
    by (simp add: merge_detections_def merge_loop_eq)
qed

text \<open>
  Claim C8, as amended. On the input "SIN: 123-456-789" the grammar pass produces exactly
  one detection, of type 'Social Insurance Number (SIN)', value "123-456-789", confidence
  0.85. For every recognizer output, \<^verbatim>\<open>analyze\<close> returns this detection together with
  exactly those recognizer detections whose spans do not meet [5, 16), with risk HIGH; so it
  returns exactly the one detection when the recognizer returns no such span. On the input
  "111-111-111" the national ID pattern matches the whole text and the detector rejects
  the match: on every text, a detection is emitted only when the matched value, with '-'
  and the blank removed, holds at least two different characters.
\<close>

theorem sin_scenarios:
  "detect_all ''SIN: 123-456-789'' =
        Inr [\<lparr>d_type = ''Social Insurance Number (SIN)'', d_value = ''123-456-789'',
              d_start = 5, d_end = 16, d_confidence = 85 / 100,
              hipaa_identifier = ''National identification number''\<rparr>]
   \<and> (detect_entities model ''SIN: 123-456-789'' = Inr E \<longrightarrow>
        (\<exists>r. analyze model (PyStr ''SIN: 123-456-789'') = Inr r
           \<and> has_phi r \<and> risk_level r = ''HIGH''
           \<and> mset (detections r) =
               {#\<lparr>d_type = ''Social Insurance Number (SIN)'', d_value = ''123-456-789'',
                  d_start = 5, d_end = 16, d_confidence = 85 / 100,
                  hipaa_identifier = ''National identification number''\<rparr>#}
               + mset (filter (\<lambda>e. d_end e \<le> 5 \<or> 16 \<le> d_start e) E)))
   \<and> (detect_entities model ''SIN: 123-456-789'' = Inr E
        \<and> (\<forall>e \<in> set E. \<not> (d_end e \<le> 5 \<or> 16 \<le> d_start e)) \<longrightarrow>
        analyze model (PyStr ''SIN: 123-456-789'') =
          Inr \<lparr>has_phi = True, risk_level = ''HIGH'',
               detections =
                 [\<lparr>d_type = ''Social Insurance Number (SIN)'', d_value = ''123-456-789'',
                   d_start = 5, d_end = 16, d_confidence = 85 / 100,
                   hipaa_identifier = ''National identification number''\<rparr>],
               redacted_text = ''SIN: [SOCIAL_INSURANCE_NUMBER_(SIN)]''\<rparr>)
   \<and> finditer sin_pattern ''111-111-111'' = [(0, 11)]
   \<and> detect_sin ''111-111-111'' = []
   \<and> (\<forall>d \<in> set (detect_sin text).
         1 < length (remdups (remove_char CHR '' '' (remove_char CHR ''-'' (d_value d)))))"
proof (intro conjI impI)
  let ?t = "''SIN: 123-456-789''"
  let ?sin = "\<lparr>d_type = ''Social Insurance Number (SIN)'', d_value = ''123-456-789'',
                 d_start = 5, d_end = 16, d_confidence = 85 / 100,
                 hipaa_identifier = ''National identification number''\<rparr>"
  show all: "detect_all ?t = Inr [?sin]"
    by (rule detect_all_sin_example)
  have red: "redact_text ?t [?sin] = ''SIN: [SOCIAL_INSURANCE_NUMBER_(SIN)]''"
    by code_simp
  have risk: "calculate_risk [?sin] = ''HIGH''"
    by (simp add: calculate_risk_def high_risk_types_def)
  have high: "calculate_risk (merge_detections [?sin] E) = ''HIGH''" for E
  proof -
    have "?sin \<in> set (merge_detections [?sin] E)"
      by (simp add: set_merge_detections)
    then have "has_high_risk (merge_detections [?sin] E)"
      unfolding has_high_risk_iff by (rule bexI [rotated]) (simp add: high_risk_types_def)
    moreover from this have "merge_detections [?sin] E \<noteq> []" by auto
    ultimately show ?thesis by (simp add: calculate_risk_def)
  qed
  have nonempty: "merge_detections [?sin] E \<noteq> []" for E
    using set_merge_detections [of "[?sin]" E] by auto
  {
    assume ents: "detect_entities model ?t = Inr E"
    let ?r = "\<lparr>has_phi = 0 < length (merge_detections [?sin] E),
        risk_level = calculate_risk (merge_detections [?sin] E),
        detections = merge_detections [?sin] E,
        redacted_text = redact_text ?t (merge_detections [?sin] E)\<rparr>"
    have "analyze model (PyStr ?t) = Inr ?r"
      unfolding analyze_def by (simp only: all ents Let_def arg.case sum.case)
    moreover have "has_phi ?r" using nonempty [of E] by simp
    moreover have "risk_level ?r = ''HIGH''" using high [of E] by simp
    moreover have "mset (detections ?r) =
        {#?sin#} + mset (filter (\<lambda>e. d_end e \<le> 5 \<or> 16 \<le> d_start e) E)"
      using merge_single_grammar [of ?sin E] by simp
    ultimately show "\<exists>r. analyze model (PyStr ?t) = Inr r \<and> has_phi r \<and> risk_level r = ''HIGH''
        \<and> mset (detections r) =
            {#?sin#} + mset (filter (\<lambda>e. d_end e \<le> 5 \<or> 16 \<le> d_start e) E)"
      by blast
  }
  {
    assume a: "detect_entities model ?t = Inr E
        \<and> (\<forall>e \<in> set E. \<not> (d_end e \<le> 5 \<or> 16 \<le> d_start e))"
    then have "merge_detections [?sin] E = [?sin]"
      by (intro merge_single_all_overlap) simp
    with a show "analyze model (PyStr ?t) =
        Inr \<lparr>has_phi = True, risk_level = ''HIGH'', detections = [?sin],
             redacted_text = ''SIN: [SOCIAL_INSURANCE_NUMBER_(SIN)]''\<rparr>"
      unfolding analyze_def by (simp only: all red risk Let_def arg.case sum.case) simp
  }
  show "finditer sin_pattern ''111-111-111'' = [(0, 11)]"
    by (rule finditer_sin_same_digits)
  show "detect_sin ''111-111-111'' = []"
    by (rule detect_sin_same_digits)
  show "\<forall>d \<in> set (detect_sin text).
         1 < length (remdups (remove_char CHR '' '' (remove_char CHR ''-'' (d_value d))))"
    by (auto simp: detect_sin_def dest: sin_loop_distinct)
qed

theorem sin_scenarios_witness:
  "analyze no_entities (PyStr ''SIN: 123-456-789'') =
        Inr \<lparr>has_phi = True, risk_level = ''HIGH'',
             detections =
               [\<lparr>d_type = ''Social Insurance Number (SIN)'', d_value = ''123-456-789'',
                 d_start = 5, d_end = 16, d_confidence = 85 / 100,
                 hipaa_identifier = ''National identification number''\<rparr>],
             redacted_text = ''SIN: [SOCIAL_INSURANCE_NUMBER_(SIN)]''\<rparr>"
proof -
  have no_spans: "detect_entities no_entities ''SIN: 123-456-789'' = Inr []
      \<and> (\<forall>e \<in> set []. \<not> (d_end e \<le> 5 \<or> 16 \<le> d_start e))"
    by (simp add: detect_entities_def no_entities_def)
  show ?thesis
    by (rule mp [OF conjunct1 [OF conjunct2 [OF conjunct2
          [OF sin_scenarios [where model = no_entities and E = "[]"]]]] no_spans])
qed

text \<open>
  The claim as stated fails: with a recognizer that tags "SIN" at [0, 3) as an
  organization, \<^verbatim>\<open>analyze\<close> returns two detections on "SIN: 123-456-789"; and a
  candidate of nine equal digits whose groups are separated by tabs is not rejected, the
  tabs counting as different characters.
\<close>

theorem sin_recognizer_counterexample:
  "analyze org_model (PyStr ''SIN: 123-456-789'') =
     Inr \<lparr>has_phi = True, risk_level = ''HIGH'', detections = [ex_org, ex_sin],
          redacted_text = ''[ORGANIZATION]: [SOCIAL_INSURANCE_NUMBER_(SIN)]''\<rparr>
   \<and> detect_sin ex_tabs =
       [\<lparr>d_type = ''Social Insurance Number (SIN)'', d_value = ex_tabs,
         d_start = 0, d_end = 11, d_confidence = 85 / 100,
         hipaa_identifier = ''National identification number''\<rparr>]"
  unfolding ex_org_def ex_sin_def ex_tabs_def by code_simp

section \<open>Health plan numbers\<close>

lemma is_digit_is_word: "is_digit c \<Longrightarrow> is_word c"
  by (simp add: is_digit_def is_word_def)

lemma finditer_from_finds:
  assumes "ends r s p = e # es" "p \<le> length s" "pos \<le> p"
    and "\<And>q e' es'. pos \<le> q \<Longrightarrow> q < p \<Longrightarrow> ends r s q = e' # es' \<Longrightarrow> e' \<le> p"
  shows "(p, e) \<in> set (finditer_from r s pos)"
  using assms(3,4)
proof (induction "p - pos" arbitrary: pos rule: less_induct)
  case less
  show ?case
  proof (cases "pos = p")
    case True
    with assms(1,2) show ?thesis
      by (subst finditer_from.simps) simp
  next
    case False
    with less.prems have lt: "pos < p" by simp
    with assms(2) have inside: "\<not> length s < pos" by simp
    show ?thesis
    proof (cases "ends r s pos")
      case Nil
      have "(p, e) \<in> set (finditer_from r s (Suc pos))"
      proof (rule less.hyps)
        show "p - Suc pos < p - pos" using lt by simp
        show "Suc pos \<le> p" using lt by simp
        show "e'' \<le> p" if "Suc pos \<le> q" "q < p" "ends r s q = e'' # es''" for q e'' es''
          using less.prems(2) [of q e'' es''] that by simp
      qed
      with Nil inside show ?thesis
        by (subst finditer_from.simps) simp
    next
      case (Cons e' es')
      let ?next = "if pos < e' then e' else Suc pos"
      from less.prems(2) [OF _ lt Cons] have "e' \<le> p" by simp
      with lt have "?next \<le> p" "pos < ?next" by auto
      then have "(p, e) \<in> set (finditer_from r s ?next)"
      proof (intro less.hyps)
        assume "?next \<le> p" "pos < ?next"
        then show "p - ?next < p - pos" by auto
        show "e'' \<le> p" if "?next \<le> q" "q < p" "ends r s q = e'' # es''" for q e'' es''
          using less.prems(2) [of q e'' es''] that \<open>pos < ?next\<close> by simp
      qed
      with Cons inside show ?thesis
        by (subst finditer_from.simps) simp
    qed
  qed
qed

lemma ends_phn_pattern:
  "ends phn_pattern s p =
     (if word_boundary s p \<and> 10 \<le> length (takeWhile is_digit (drop p s))
         \<and> word_boundary s (p + 10)
      then [p + 10] else [])"
  by (simp add: phn_pattern_def seqs_def digits_def Let_def)

lemma run_takeWhile:
  assumes "n \<le> length xs" "list_all P (take n xs)"
  shows "n \<le> length (takeWhile P xs)"
proof -
  have "takeWhile P xs = takeWhile P (take n xs @ drop n xs)" by simp
  also have "\<dots> = take n xs @ takeWhile P (drop n xs)"
    using assms(2) by (intro takeWhile_append2) (simp add: list_all_iff)
  finally show ?thesis using assms(1) by simp
qed

lemma digit_run10_match:
  assumes "digit_run10 s p"
  shows "ends phn_pattern s p = [p + 10]"
proof -
  from assms have len: "p + 10 \<le> length s" and digs: "list_all is_digit (take 10 (drop p s))"
    and left: "p = 0 \<or> \<not> is_word (s ! (p - 1))"
    and right: "p + 10 = length s \<or> \<not> is_word (s ! (p + 10))"
    by (auto simp: digit_run10_def)
  from len digs have run: "10 \<le> length (takeWhile is_digit (drop p s))"
    by (intro run_takeWhile) auto
  have "is_digit (drop p s ! 0)" "is_digit (drop p s ! 9)"
    using takeWhile_run [OF run] by auto
  with len have first: "is_word (s ! p)" and last: "is_word (s ! (p + 9))"
    by (auto intro: is_digit_is_word)
  from len left first have "word_boundary s p"
    by (auto simp: word_boundary_def)
  moreover from last have "is_word (s ! (9 + p))"
    by (simp add: add.commute)
  with len right have "word_boundary s (p + 10)"
    by (auto simp: word_boundary_def)
  ultimately show ?thesis
    using run by (simp add: ends_phn_pattern)
qed

lemma phn_match_before:
  assumes "digit_run10 s p" "q < p" "ends phn_pattern s q = e' # es'"
  shows "e' \<le> p"
proof (rule ccontr)
  assume "\<not> e' \<le> p"
  from assms(3) have e': "e' = q + 10" and run: "10 \<le> length (takeWhile is_digit (drop q s))"
    by (auto simp: ends_phn_pattern split: if_splits)
  with \<open>\<not> e' \<le> p\<close> assms(2) have k: "p - 1 - q < 10" "q \<le> p - 1" "0 < p" by auto
  have "length (takeWhile is_digit (drop q s)) \<le> length (drop q s)"
    by (rule length_takeWhile_le)
  with run have "q + 10 \<le> length s" by simp
  with takeWhile_run [OF run k(1)] k have "is_digit (s ! (p - 1))" by simp
  then have "is_word (s ! (p - 1))" by (rule is_digit_is_word)
  with assms(1) k show False by (simp add: digit_run10_def)
qed

lemma digit_run10_found:
  assumes "digit_run10 s p"
  shows "(p, p + 10) \<in> set (finditer phn_pattern s)"
  unfolding finditer_def
proof (rule finditer_from_finds)
  show "ends phn_pattern s p = (p + 10) # []"
    by (rule digit_run10_match [OF assms])
  show "p \<le> length s" using assms by (simp add: digit_run10_def)
  show "0 \<le> p" by simp
  show "e' \<le> p" if "q < p" "ends phn_pattern s q = e' # es'" for q e' es'
    by (rule phn_match_before [OF assms that])
qed

lemma set_phn_loop:
  "set (phn_loop text ms) =
     (\<lambda>m. mk_detection ''Personal Health Number (PHN)'' (phn_confidence text m)
            ''Health plan beneficiary number'' text m) ` set ms"
  by (induction ms) auto

lemma detect_phn_example: "detect_phn ''PHN: 1234567890 for patient'' = [ex_phn]"
  unfolding ex_phn_def by code_simp

lemma digit_run10_phn_example: "digit_run10 ''PHN: 1234567890 for patient'' 5"
  by code_simp

text \<open>
  Claim C6, as amended. For every text, each word-bounded run of exactly ten digits yields
  a 'Personal Health Number (PHN)' detection on that run, and its confidence is 0.9 if the
  context (20 characters before the match through 20 characters after, in lower case)
  contains one of the keywords 'phn', 'health number', 'care card', 'bc health', and 0.5
  otherwise.
\<close>

theorem detect_phn_run:
  assumes "digit_run10 text p"
  shows "\<exists>d \<in> set (detect_phn text).
           d_type d = ''Personal Health Number (PHN)''
         \<and> d_start d = int p \<and> d_end d = int p + 10 \<and> d_value d = take 10 (drop p text)
         \<and> d_confidence d =
             (let context = lower (py_slice text (max 0 (int p - 20))
                                     (min (int (length text)) (int p + 10 + 20)))
              in if py_in ''phn'' context \<or> py_in ''health number'' context
                    \<or> py_in ''care card'' context \<or> py_in ''bc health'' context
                 then 9 / 10 else 5 / 10)"
proof -
  let ?d = "mk_detection ''Personal Health Number (PHN)'' (phn_confidence text (p, p + 10))
            ''Health plan beneficiary number'' text (p, p + 10)"
  have "?d \<in> set (detect_phn text)"
    using digit_run10_found [OF assms] by (auto simp: detect_phn_def set_phn_loop)
  moreover have "d_type ?d = ''Personal Health Number (PHN)''" "d_start ?d = int p"
    "d_end ?d = int p + 10" "d_value ?d = take 10 (drop p text)"
    by (simp_all add: mk_detection_def group_def)
  moreover have "d_confidence ?d =
             (let context = lower (py_slice text (max 0 (int p - 20))
                                     (min (int (length text)) (int p + 10 + 20)))
              in if py_in ''phn'' context \<or> py_in ''health number'' context
                    \<or> py_in ''care card'' context \<or> py_in ''bc health'' context
                 then 9 / 10 else 5 / 10)"
    by (simp add: mk_detection_def phn_confidence_def phn_context_def phn_keywords_def Let_def)
  ultimately show ?thesis by blast
qed

theorem detect_phn_run_witness:
  "ex_phn \<in> set (detect_phn ''PHN: 1234567890 for patient'')"
proof -
  from detect_phn_run [OF digit_run10_phn_example]
  obtain d where "d \<in> set (detect_phn ''PHN: 1234567890 for patient'')" "d_start d = 5"
    by auto
  then show ?thesis by (simp add: detect_phn_example)
qed

text \<open>
  The claim as stated names the keyword 'health' where the code has 'bc health': the
  context of the run in "health 1234567890" contains 'health' and the confidence is 0.5.
\<close>

theorem detect_phn_health_counterexample:
  "digit_run10 ''health 1234567890'' 7
   \<and> py_in ''health'' (lower (py_slice ''health 1234567890'' (max 0 (7 - 20)) (min 17 (17 + 20))))
   \<and> detect_phn ''health 1234567890'' =
       [\<lparr>d_type = ''Personal Health Number (PHN)'', d_value = ''1234567890'',
         d_start = 7, d_end = 17, d_confidence = 5 / 10,
         hipaa_identifier = ''Health plan beneficiary number''\<rparr>]"
  by code_simp

end
